theory Spec2Isabelle
  imports Main
begin

section \<open>C integers\<close>

text \<open>
  A C \<open>int\<close> has 32 bits. The model holds its value in a HOL integer between \<open>INT_MIN\<close>
  and \<open>INT_MAX\<close>. The result of an \<open>int\<close> operation is what the two's complement
  machine leaves in the 32 bits: \<open>c_int x\<close> is the value of an \<open>int\<close> object after the
  mathematical result \<open>x\<close> was stored in it; it is \<open>x\<close> itself when \<open>x\<close> fits.
  C division truncates towards zero, unlike \<open>div\<close> on HOL integers. The division
  instruction traps when the divisor is zero and when \<open>INT_MIN\<close> is divided by \<open>-1\<close>,
  whose quotient no \<open>int\<close> holds; the callers of \<open>c_div\<close> check both.
\<close>

definition INT_MAX :: int where
  "INT_MAX = 2 ^ 31 - 1"

definition INT_MIN :: int where
  "INT_MIN = - (2 ^ 31)"

definition c_int :: "int \<Rightarrow> int" where
  "c_int x = (x + 2 ^ 31) mod 2 ^ 32 - 2 ^ 31"

definition c_div :: "int \<Rightarrow> int \<Rightarrow> int" where
  "c_div a b = sgn a * sgn b * (\<bar>a\<bar> div \<bar>b\<bar>)"

definition sizeof_double :: int where
  "sizeof_double = 8"

section \<open>Memory\<close>

text \<open>
  A pointer is an address or null (\<open>None\<close>). The heap is typed: it holds
  \<open>mylib_ThreadFactory_internal\<close> objects, \<open>mylib_ThreadControl_internal\<close> objects and
  arrays of \<open>double\<close>. The element type of the arrays is a type parameter: the kernels
  only add and multiply elements, so the statements about them hold for every type
  with these operations, and the statements about exact sums for every semiring.
\<close>

type_synonym addr = nat
type_synonym pointer = "addr option"

record ThreadFactory_internal =
  sync :: pointer
  sync_data :: pointer
  shared_data :: pointer

record ThreadControl_internal =
  tid :: int
  tsize :: int
  shared_context :: pointer

text \<open>Calls that leave the library: the registered callback, \<open>malloc\<close> and \<open>free\<close>.\<close>

datatype call =
    Call_sync pointer int int pointer
  | Call_malloc int
  | Call_free pointer

text \<open>
  An access through a null or invalid pointer, an index outside an array, a division
  that traps and the release of a block that is not allocated are faults of the model.
  \<open>AllocationError\<close> is the error of the specification; no function of the library
  produces it.
\<close>

datatype fault =
    NullDereference
  | InvalidPointer
  | OutOfBounds
  | DivisionByZero
  | DivisionOverflow
  | InvalidFree
  | Deadlock
  | AllocationError

text \<open>\<open>calls w t\<close> is the sequence of outside calls made so far by the thread with index \<open>t\<close>.\<close>

record 'a world =
  factories :: "addr \<rightharpoonup> ThreadFactory_internal"
  controls :: "addr \<rightharpoonup> ThreadControl_internal"
  buffers :: "addr \<rightharpoonup> 'a list"
  calls :: "int \<Rightarrow> call list"

section \<open>Thread code\<close>

text \<open>
  The code of one thread is a tree of reads and writes of the shared memory, with
  \<open>Sync\<close> where the thread waits in the barrier that the registered callback
  implements. \<open>Fail\<close> is undefined behaviour of the C program.
\<close>

datatype ('w, 'r) prog =
    Return 'r
  | Fail fault
  | Sync "('w, 'r) prog"
  | Read "'w \<Rightarrow> ('w, 'r) prog"
  | Write "'w \<Rightarrow> 'w" "('w, 'r) prog"

primrec pbind :: "('w, 'a) prog \<Rightarrow> ('a \<Rightarrow> ('w, 'b) prog) \<Rightarrow> ('w, 'b) prog" where
  "pbind (Return r) k = k r"
| "pbind (Fail e) k = Fail e"
| "pbind (Sync p) k = Sync (pbind p k)"
| "pbind (Read f) k = Read (\<lambda>w. pbind (f w) k)"
| "pbind (Write g p) k = Write g (pbind p k)"

definition pseq :: "('w, 'a) prog \<Rightarrow> ('w, 'b) prog \<Rightarrow> ('w, 'b) prog" where
  "pseq p q = pbind p (\<lambda>_. q)"

text \<open>\<open>advance p w\<close> runs a thread up to its next barrier, its end or a fault.\<close>

primrec advance :: "('w, 'r) prog \<Rightarrow> 'w \<Rightarrow> fault + 'w \<times> ('w, 'r) prog" where
  "advance (Return r) w = Inr (w, Return r)"
| "advance (Fail e) w = Inl e"
| "advance (Sync p) w = Inr (w, Sync p)"
| "advance (Read f) w = advance (f w) w"
| "advance (Write g p) w = advance p (g w)"

subsection \<open>Memory accesses\<close>

definition load_control :: "pointer \<Rightarrow> ('a world, ThreadControl_internal) prog" where
  "load_control tcontrol =
     Read (\<lambda>w. case tcontrol of
        None \<Rightarrow> Fail NullDereference
      | Some a \<Rightarrow> (case controls w a of None \<Rightarrow> Fail InvalidPointer | Some tc \<Rightarrow> Return tc))"

definition load_factory :: "pointer \<Rightarrow> ('a world, ThreadFactory_internal) prog" where
  "load_factory tfactory =
     Read (\<lambda>w. case tfactory of
        None \<Rightarrow> Fail NullDereference
      | Some a \<Rightarrow> (case factories w a of None \<Rightarrow> Fail InvalidPointer | Some f \<Rightarrow> Return f))"

definition store_shared_data :: "pointer \<Rightarrow> pointer \<Rightarrow> ('a world, unit) prog" where
  "store_shared_data tfactory v =
     Read (\<lambda>w. case tfactory of
        None \<Rightarrow> Fail NullDereference
      | Some a \<Rightarrow> (case factories w a of
           None \<Rightarrow> Fail InvalidPointer
         | Some f \<Rightarrow>
             Write (\<lambda>w. w\<lparr>factories := (factories w)(a \<mapsto> f\<lparr>shared_data := v\<rparr>)\<rparr>) (Return ())))"

text \<open>Reading and writing element \<open>i\<close> of the array at \<open>p\<close>; an index outside the array is a fault.\<close>

definition load :: "pointer \<Rightarrow> int \<Rightarrow> ('a world, 'a) prog" where
  "load p i =
     Read (\<lambda>w. case p of
        None \<Rightarrow> Fail NullDereference
      | Some a \<Rightarrow> (case buffers w a of
           None \<Rightarrow> Fail InvalidPointer
         | Some xs \<Rightarrow>
             if 0 \<le> i \<and> i < int (length xs) then Return (xs ! nat i) else Fail OutOfBounds))"

definition store :: "pointer \<Rightarrow> int \<Rightarrow> 'a \<Rightarrow> ('a world, unit) prog" where
  "store p i v =
     Read (\<lambda>w. case p of
        None \<Rightarrow> Fail NullDereference
      | Some a \<Rightarrow> (case buffers w a of
           None \<Rightarrow> Fail InvalidPointer
         | Some xs \<Rightarrow>
             if 0 \<le> i \<and> i < int (length xs)
             then Write (\<lambda>w. w\<lparr>buffers := (buffers w)(a \<mapsto> xs[nat i := v])\<rparr>) (Return ())
             else Fail OutOfBounds))"

definition log_call :: "int \<Rightarrow> call \<Rightarrow> ('a world, unit) prog" where
  "log_call t c = Write (\<lambda>w. w\<lparr>calls := (calls w)(t := calls w t @ [c])\<rparr>) (Return ())"

subsection \<open>The C library\<close>

text \<open>
  What \<open>malloc\<close> answers is an input of the model: \<open>None\<close> when no memory can be
  obtained, otherwise the address of the block and what the block holds, which the C
  standard leaves indeterminate. For an array of \<open>double\<close> the block has room for
  \<open>num_bytes / sizeof(double)\<close> elements.
\<close>

definition c_malloc :: "(addr \<times> (nat \<Rightarrow> 'a)) option \<Rightarrow> int \<Rightarrow> int \<Rightarrow> ('a world, pointer) prog" where
  "c_malloc m t num_bytes =
     pseq (log_call t (Call_malloc num_bytes))
       (case m of
          None \<Rightarrow> Return None
        | Some (p, junk) \<Rightarrow>
            Write (\<lambda>w. w\<lparr>buffers :=
                     (buffers w)(p \<mapsto> map junk [0..<nat (c_div num_bytes sizeof_double)])\<rparr>)
              (Return (Some p)))"

definition c_free :: "int \<Rightarrow> pointer \<Rightarrow> ('a world, unit) prog" where
  "c_free t ptr =
     pseq (log_call t (Call_free ptr))
       (case ptr of
          None \<Rightarrow> Return ()
        | Some a \<Rightarrow>
            Read (\<lambda>w. if a \<in> dom (buffers w)
                      then Write (\<lambda>w. w\<lparr>buffers := (buffers w)(a := None)\<rparr>) (Return ())
                      else Fail InvalidFree))"

section \<open>Part 1: thread control and management\<close>

text \<open>
  The functions are declared \<open>int\<close> and return no value; the model returns what they
  store through their output parameter.
\<close>

definition mylib_ThreadFactory_create ::
    "(addr \<times> ThreadFactory_internal) option \<Rightarrow> ('a world, pointer) prog" where
  "mylib_ThreadFactory_create m =
     (case m of
        None \<Rightarrow> Return None
      | Some (p, junk) \<Rightarrow>
          Write (\<lambda>w. w\<lparr>factories := (factories w)(p \<mapsto> junk)\<rparr>) (Return (Some p)))"

definition mylib_ThreadFactory_destroy :: "pointer \<Rightarrow> ('a world, unit) prog" where
  "mylib_ThreadFactory_destroy tfactory =
     (case tfactory of
        None \<Rightarrow> Return ()
      | Some a \<Rightarrow>
          Read (\<lambda>w. if a \<in> dom (factories w)
                    then Write (\<lambda>w. w\<lparr>factories := (factories w)(a := None)\<rparr>) (Return ())
                    else Fail InvalidFree))"

text \<open>The three assignments of the defaults go through the pointer that \<open>malloc\<close> returned.\<close>

definition mylib_ThreadFactory_create_control ::
    "(addr \<times> ThreadControl_internal) option \<Rightarrow> pointer \<Rightarrow> ('a world, pointer) prog" where
  "mylib_ThreadFactory_create_control m tfactory =
     (case m of
        None \<Rightarrow> Fail NullDereference
      | Some (p, junk) \<Rightarrow>
          Write (\<lambda>w. w\<lparr>controls :=
                   (controls w)(p \<mapsto> junk\<lparr>tid := 0, tsize := 0, shared_context := tfactory\<rparr>)\<rparr>)
            (Return (Some p)))"

definition mylib_ThreadFactory_destroy_control :: "pointer \<Rightarrow> pointer \<Rightarrow> ('a world, unit) prog" where
  "mylib_ThreadFactory_destroy_control tfactory tcontrol =
     (case tcontrol of
        None \<Rightarrow> Return ()
      | Some a \<Rightarrow>
          Read (\<lambda>w. if a \<in> dom (controls w)
                    then Write (\<lambda>w. w\<lparr>controls := (controls w)(a := None)\<rparr>) (Return ())
                    else Fail InvalidFree))"

text \<open>
  The callback is called with the thread's index, the thread count and the auxiliary
  data; by its contract it returns when every thread of the group has called it.
\<close>

definition call_sync :: "pointer \<Rightarrow> int \<Rightarrow> int \<Rightarrow> pointer \<Rightarrow> ('a world, unit) prog" where
  "call_sync callback t n data =
     (case callback of
        None \<Rightarrow> Fail NullDereference
      | Some _ \<Rightarrow> pseq (log_call t (Call_sync callback t n data)) (Sync (Return ())))"

definition mylib_ThreadControl_sync :: "pointer \<Rightarrow> ('a world, unit) prog" where
  "mylib_ThreadControl_sync tcontrol =
     pbind (load_control tcontrol) (\<lambda>tc.
     pbind (load_factory (shared_context tc)) (\<lambda>f.
       call_sync (sync f) (tid tc) (tsize tc) (sync_data f)))"

definition mylib_ThreadControl_malloc ::
    "(addr \<times> (nat \<Rightarrow> 'a)) option \<Rightarrow> pointer \<Rightarrow> int \<Rightarrow> ('a world, pointer) prog" where
  "mylib_ThreadControl_malloc m tcontrol num_bytes =
     pseq (mylib_ThreadControl_sync tcontrol)
    (pseq (pbind (load_control tcontrol) (\<lambda>tc.
             if tid tc = 0
             then pbind (c_malloc m (tid tc) num_bytes) (store_shared_data (shared_context tc))
             else Return ()))
    (pseq (mylib_ThreadControl_sync tcontrol)
          (pbind (load_control tcontrol) (\<lambda>tc.
           pbind (load_factory (shared_context tc)) (\<lambda>f.
             Return (shared_data f))))))"

definition mylib_ThreadControl_free :: "pointer \<Rightarrow> pointer \<Rightarrow> ('a world, unit) prog" where
  "mylib_ThreadControl_free tcontrol ptr =
     pseq (mylib_ThreadControl_sync tcontrol)
       (pbind (load_control tcontrol) (\<lambda>tc.
          if tid tc = 0 then c_free (tid tc) ptr else Return ()))"

section \<open>Part 2: worker routines\<close>

text \<open>
  Both kernels compute \<open>elements_per_thread\<close>, \<open>begin_index\<close> and \<open>end_index\<close> with the
  same three statements. Every subtraction, division, addition and multiplication in
  them is an \<open>int\<close> operation, whose result is stored through \<open>c_int\<close>.
\<close>

definition elements_per_thread :: "int \<Rightarrow> int \<Rightarrow> int" where
  "elements_per_thread vsize n = c_int (c_int (c_div (c_int (vsize - 1)) n) + 1)"

definition begin_index :: "int \<Rightarrow> int \<Rightarrow> int" where
  "begin_index t ept = c_int (t * ept)"

definition end_index :: "int \<Rightarrow> int \<Rightarrow> int \<Rightarrow> int" where
  "end_index t ept vsize =
     (if c_int (c_int (t + 1) * ept) > vsize then vsize else c_int (c_int (t + 1) * ept))"

text \<open>
  The loops compare the \<open>int\<close> objects \<open>i\<close> and \<open>end_index\<close> and increment \<open>i\<close> as an
  \<open>int\<close>. Reading the two objects through \<open>c_int\<close> changes no value that an \<open>int\<close> can
  hold.
\<close>

function add_loop ::
    "pointer \<Rightarrow> pointer \<Rightarrow> pointer \<Rightarrow> int \<Rightarrow> int \<Rightarrow> ('a::plus world, unit) prog" where
  "add_loop v1 v2 vresult i e =
     (if c_int i < c_int e
      then pbind (load v1 i) (\<lambda>x.
           pbind (load v2 i) (\<lambda>y.
           pseq (store vresult i (x + y))
                (add_loop v1 v2 vresult (c_int (i + 1)) e)))
      else Return ())"
  by pat_completeness auto
termination
proof (relation "measure (\<lambda>(v1, v2, vresult, i, e). nat (c_int e - c_int i))")
  show "wf (measure (\<lambda>(v1, v2, vresult, i, e). nat (c_int e - c_int i)))" by simp
next
  fix v1 v2 vresult :: pointer and i e :: int and x y :: 'a
  assume lt: "c_int i < c_int e"
  have top: "c_int e < 2 ^ 31" by (simp add: c_int_def)
  have low: "0 \<le> (i + 2 ^ 31) mod 2 ^ 32" by simp
  have "(i + 1 + 2 ^ 31) mod 2 ^ 32 = ((i + 2 ^ 31) mod 2 ^ 32 + 1) mod 2 ^ 32"
    by (simp add: mod_simps)
  also have "\<dots> = (i + 2 ^ 31) mod 2 ^ 32 + 1"
    using lt top low by (intro mod_pos_pos_trivial) (simp_all add: c_int_def)
  finally have "c_int (c_int (i + 1)) = c_int i + 1"
    using lt top low by (simp add: c_int_def)
  then show "((v1, v2, vresult, c_int (i + 1), e), (v1, v2, vresult, i, e))
      \<in> measure (\<lambda>(v1, v2, vresult, i, e). nat (c_int e - c_int i))"
    using lt by simp
qed

text \<open>
  The kernels read the fields of the control once; no function of the library assigns
  them after \<open>mylib_ThreadFactory_create_control\<close>.
  In \<open>mylib_vector_dot\<close> the product \<open>tsize * sizeof(double)\<close> is computed in \<open>size_t\<close>
  and converted to the \<open>int\<close> parameter \<open>num_bytes\<close> of \<open>mylib_ThreadControl_malloc\<close>,
  which keeps its low 32 bits.
\<close>

definition mylib_vector_add ::
    "pointer \<Rightarrow> pointer \<Rightarrow> pointer \<Rightarrow> pointer \<Rightarrow> int \<Rightarrow> ('a::plus world, unit) prog" where
  "mylib_vector_add tcontrol v1 v2 vresult vsize =
     pbind (load_control tcontrol) (\<lambda>tc.
       if tsize tc = 0 then Fail DivisionByZero
       else if c_int (vsize - 1) = INT_MIN \<and> tsize tc = - 1 then Fail DivisionOverflow
       else
         let ept = elements_per_thread vsize (tsize tc)
         in add_loop v1 v2 vresult (begin_index (tid tc) ept) (end_index (tid tc) ept vsize))"

function dot_loop ::
    "pointer \<Rightarrow> pointer \<Rightarrow> pointer \<Rightarrow> int \<Rightarrow> int \<Rightarrow> int \<Rightarrow> ('a::{plus,times} world, unit) prog" where
  "dot_loop v1 v2 thread_results t i e =
     (if c_int i < c_int e
      then pbind (load thread_results t) (\<lambda>acc.
           pbind (load v1 i) (\<lambda>x.
           pbind (load v2 i) (\<lambda>y.
           pseq (store thread_results t (acc + x * y))
                (dot_loop v1 v2 thread_results t (c_int (i + 1)) e))))
      else Return ())"
  by pat_completeness auto
termination
proof (relation "measure (\<lambda>(v1, v2, thread_results, t, i, e). nat (c_int e - c_int i))")
  show "wf (measure (\<lambda>(v1, v2, thread_results, t, i, e). nat (c_int e - c_int i)))" by simp
next
  fix v1 v2 thread_results :: pointer and t i e :: int and acc x y :: 'a
  assume lt: "c_int i < c_int e"
  have top: "c_int e < 2 ^ 31" by (simp add: c_int_def)
  have low: "0 \<le> (i + 2 ^ 31) mod 2 ^ 32" by simp
  have "(i + 1 + 2 ^ 31) mod 2 ^ 32 = ((i + 2 ^ 31) mod 2 ^ 32 + 1) mod 2 ^ 32"
    by (simp add: mod_simps)
  also have "\<dots> = (i + 2 ^ 31) mod 2 ^ 32 + 1"
    using lt top low by (intro mod_pos_pos_trivial) (simp_all add: c_int_def)
  finally have "c_int (c_int (i + 1)) = c_int i + 1"
    using lt top low by (simp add: c_int_def)
  then show "((v1, v2, thread_results, t, c_int (i + 1), e), (v1, v2, thread_results, t, i, e))
      \<in> measure (\<lambda>(v1, v2, thread_results, t, i, e). nat (c_int e - c_int i))"
    using lt by simp
qed

function reduce_loop :: "pointer \<Rightarrow> int \<Rightarrow> int \<Rightarrow> ('a::plus world, unit) prog" where
  "reduce_loop thread_results i n =
     (if c_int i < c_int n
      then pbind (load thread_results 0) (\<lambda>acc.
           pbind (load thread_results i) (\<lambda>x.
           pseq (store thread_results 0 (acc + x))
                (reduce_loop thread_results (c_int (i + 1)) n)))
      else Return ())"
  by pat_completeness auto
termination
proof (relation "measure (\<lambda>(thread_results, i, n). nat (c_int n - c_int i))")
  show "wf (measure (\<lambda>(thread_results, i, n). nat (c_int n - c_int i)))" by simp
next
  fix thread_results :: pointer and i n :: int and acc x :: 'a
  assume lt: "c_int i < c_int n"
  have top: "c_int n < 2 ^ 31" by (simp add: c_int_def)
  have low: "0 \<le> (i + 2 ^ 31) mod 2 ^ 32" by simp
  have "(i + 1 + 2 ^ 31) mod 2 ^ 32 = ((i + 2 ^ 31) mod 2 ^ 32 + 1) mod 2 ^ 32"
    by (simp add: mod_simps)
  also have "\<dots> = (i + 2 ^ 31) mod 2 ^ 32 + 1"
    using lt top low by (intro mod_pos_pos_trivial) (simp_all add: c_int_def)
  finally have "c_int (c_int (i + 1)) = c_int i + 1"
    using lt top low by (simp add: c_int_def)
  then show "((thread_results, c_int (i + 1), n), (thread_results, i, n))
      \<in> measure (\<lambda>(thread_results, i, n). nat (c_int n - c_int i))"
    using lt by simp
qed

definition mylib_vector_dot ::
    "(addr \<times> (nat \<Rightarrow> 'a)) option \<Rightarrow> pointer \<Rightarrow> pointer \<Rightarrow> pointer \<Rightarrow> pointer \<Rightarrow> int
       \<Rightarrow> ('a::{zero,plus,times} world, unit) prog" where
  "mylib_vector_dot m tcontrol v1 v2 dotresult vsize =
     pbind (load_control tcontrol) (\<lambda>tc0.
     pbind (mylib_ThreadControl_malloc m tcontrol (c_int (tsize tc0 * sizeof_double)))
       (\<lambda>thread_results.
     pbind (load_control tcontrol) (\<lambda>tc.
     pseq (store thread_results (tid tc) 0)
    (pseq (if tsize tc = 0 then Fail DivisionByZero
           else if c_int (vsize - 1) = INT_MIN \<and> tsize tc = - 1 then Fail DivisionOverflow
           else
             let ept = elements_per_thread vsize (tsize tc)
             in dot_loop v1 v2 thread_results (tid tc)
                  (begin_index (tid tc) ept) (end_index (tid tc) ept vsize))
    (pseq (mylib_ThreadControl_sync tcontrol)
    (pseq (if tid tc = 0
           then pseq (reduce_loop thread_results 1 (tsize tc))
                     (pbind (load thread_results 0) (store dotresult 0))
           else Return ())
    (pseq (mylib_ThreadControl_sync tcontrol)
          (mylib_ThreadControl_free tcontrol thread_results))))))))"

declare add_loop.simps [simp del] dot_loop.simps [simp del] reduce_loop.simps [simp del]

section \<open>Threads running together\<close>

text \<open>
  A group of threads runs in phases. In a phase the threads run, in the order of a
  schedule, each up to its next barrier; a thread named again in the same schedule
  is already waiting and does nothing. The barrier opens when every thread waits in
  it. A thread that ended while others wait will never arrive: the group hangs.
  Between two barriers a thread of this library reads shared memory that no other
  thread writes in that phase and writes only its own part, so running the threads of
  a phase one after the other, in any order, covers their interleavings.
\<close>

fun run_thread :: "nat \<Rightarrow> 'w \<times> ('w, 'r) prog list \<Rightarrow> fault + 'w \<times> ('w, 'r) prog list" where
  "run_thread k (w, ps) =
     (if k < length ps
      then (case advance (ps ! k) w of
              Inl e \<Rightarrow> Inl e
            | Inr (w', p') \<Rightarrow> Inr (w', ps[k := p']))
      else Inr (w, ps))"

fun run_phase :: "nat list \<Rightarrow> 'w \<times> ('w, 'r) prog list \<Rightarrow> fault + 'w \<times> ('w, 'r) prog list" where
  "run_phase [] c = Inr c"
| "run_phase (k # ks) c =
     (case run_thread k c of Inl e \<Rightarrow> Inl e | Inr c' \<Rightarrow> run_phase ks c')"

fun finished :: "('w, 'r) prog \<Rightarrow> bool" where
  "finished (Return r) = True"
| "finished p = False"

fun waiting :: "('w, 'r) prog \<Rightarrow> bool" where
  "waiting (Sync p) = True"
| "waiting p = False"

fun resume :: "('w, 'r) prog \<Rightarrow> ('w, 'r) prog" where
  "resume (Sync p) = p"
| "resume p = p"

definition barrier :: "('w, 'r) prog list \<Rightarrow> fault + ('w, 'r) prog list" where
  "barrier ps =
     (if list_all finished ps then Inr ps
      else if list_all waiting ps then Inr (map resume ps)
      else Inl Deadlock)"

fun spmd :: "nat list list \<Rightarrow> 'w \<times> ('w, 'r) prog list \<Rightarrow> fault + 'w \<times> ('w, 'r) prog list" where
  "spmd [] c = Inr c"
| "spmd (s # ss) c =
     (case run_phase s c of
        Inl e \<Rightarrow> Inl e
      | Inr (w, ps) \<Rightarrow>
          (case barrier ps of Inl e \<Rightarrow> Inl e | Inr ps' \<Rightarrow> spmd ss (w, ps')))"

text \<open>The world in which a run of the group ended, if it ended without a fault.\<close>

definition final_world :: "fault + 'w \<times> 'p \<Rightarrow> 'w option" where
  "final_world r = (case r of Inl e \<Rightarrow> None | Inr (w, ps) \<Rightarrow> Some w)"

section \<open>Notions used in the statements\<close>

text \<open>
  A group of \<open>length tcs\<close> threads: the control at position \<open>k\<close> has index \<open>k\<close>,
  the thread count of the group and the shared factory.
\<close>

definition thread_group :: "'a world \<Rightarrow> addr list \<Rightarrow> pointer \<Rightarrow> bool" where
  "thread_group w tcs tfactory =
     (\<forall>k < length tcs. controls w (tcs ! k) =
        Some \<lparr>tid = int k, tsize = int (length tcs), shared_context = tfactory\<rparr>)"

text \<open>The indices that the thread with index \<open>k\<close> of \<open>n\<close> visits in a vector of \<open>vsize\<close> elements.\<close>

definition thread_range :: "int \<Rightarrow> int \<Rightarrow> nat \<Rightarrow> int set" where
  "thread_range vsize n k =
     {begin_index (int k) (elements_per_thread vsize n)..<
      end_index (int k) (elements_per_thread vsize n) vsize}"

text \<open>The array \<open>zs\<close> with the element sums of \<open>xs\<close> and \<open>ys\<close> written at the indices in \<open>S\<close>.\<close>

definition sum_on :: "int set \<Rightarrow> 'a::plus list \<Rightarrow> 'a list \<Rightarrow> 'a list \<Rightarrow> 'a list" where
  "sum_on S xs ys zs = map (\<lambda>j. if int j \<in> S then xs ! j + ys ! j else zs ! j) [0..<length zs]"

text \<open>
  \<open>with_calls cs w\<close> is the world \<open>w\<close> after thread \<open>t\<close> made the calls \<open>cs t\<close>;
  \<open>on_threads D cs\<close> gives the calls \<open>cs k\<close> to the threads \<open>k\<close> in \<open>D\<close> and none to the others.
\<close>

definition with_calls :: "(int \<Rightarrow> call list) \<Rightarrow> 'a world \<Rightarrow> 'a world" where
  "with_calls cs w = w\<lparr>calls := (\<lambda>t. calls w t @ cs t)\<rparr>"

definition on_threads :: "nat set \<Rightarrow> (nat \<Rightarrow> call list) \<Rightarrow> int \<Rightarrow> call list" where
  "on_threads D cs t = (if 0 \<le> t \<and> nat t \<in> D then cs (nat t) else [])"

definition sync_call :: "ThreadFactory_internal \<Rightarrow> nat \<Rightarrow> nat \<Rightarrow> call" where
  "sync_call F n k = Call_sync (sync F) (int k) (int n) (sync_data F)"

text \<open>
  The world after thread 0 stored the answer of \<open>malloc\<close> in the shared slot, and the
  world after the block at \<open>ptr\<close> was freed.
\<close>

definition publish ::
    "(addr \<times> (nat \<Rightarrow> 'a)) option \<Rightarrow> addr \<Rightarrow> ThreadFactory_internal \<Rightarrow> int \<Rightarrow> 'a world \<Rightarrow> 'a world" where
  "publish m f F num_bytes w =
     w\<lparr>factories := (factories w)(f \<mapsto> F\<lparr>shared_data := map_option fst m\<rparr>),
       buffers := (case m of
          None \<Rightarrow> buffers w
        | Some (p, junk) \<Rightarrow> (buffers w)(p \<mapsto> map junk [0..<nat (c_div num_bytes sizeof_double)]))\<rparr>"

definition release :: "pointer \<Rightarrow> 'a world \<Rightarrow> 'a world" where
  "release ptr w = (case ptr of None \<Rightarrow> w | Some a \<Rightarrow> w\<lparr>buffers := (buffers w)(a := None)\<rparr>)"

text \<open>The outside calls of thread \<open>k\<close> in the shared allocation, the shared release, and both.\<close>

definition malloc_calls :: "ThreadFactory_internal \<Rightarrow> nat \<Rightarrow> int \<Rightarrow> nat \<Rightarrow> call list" where
  "malloc_calls F n num_bytes k =
     [sync_call F n k] @ (if k = 0 then [Call_malloc num_bytes] else []) @ [sync_call F n k]"

definition free_calls :: "pointer \<Rightarrow> ThreadFactory_internal \<Rightarrow> nat \<Rightarrow> nat \<Rightarrow> call list" where
  "free_calls ptr F n k = [sync_call F n k] @ (if k = 0 then [Call_free ptr] else [])"

definition malloc_free_calls ::
    "(addr \<times> (nat \<Rightarrow> 'a)) option \<Rightarrow> ThreadFactory_internal \<Rightarrow> nat \<Rightarrow> int \<Rightarrow> nat \<Rightarrow> call list" where
  "malloc_free_calls m F n num_bytes k =
     malloc_calls F n num_bytes k @ [sync_call F n k]
       @ (if k = 0 then [Call_free (map_option fst m)] else [])"

text \<open>A thread that allocates the shared buffer and releases it at once.\<close>

definition malloc_then_free ::
    "(addr \<times> (nat \<Rightarrow> 'a)) option \<Rightarrow> pointer \<Rightarrow> int \<Rightarrow> ('a world, unit) prog" where
  "malloc_then_free m tcontrol num_bytes =
     pbind (mylib_ThreadControl_malloc m tcontrol num_bytes) (mylib_ThreadControl_free tcontrol)"

text \<open>
  The partial sum that thread \<open>k\<close> accumulates in its slot, and the sum in which slot 0
  accumulates the slots \<open>1, \<dots>, n - 1\<close> in this order.
\<close>

definition thread_partial :: "'a::{zero,plus,times} list \<Rightarrow> 'a list \<Rightarrow> int \<Rightarrow> nat \<Rightarrow> nat \<Rightarrow> 'a" where
  "thread_partial xs ys vsize n k =
     foldl (\<lambda>s j. s + xs ! nat j * ys ! nat j) 0
       [begin_index (int k) (elements_per_thread vsize (int n))..
        end_index (int k) (elements_per_thread vsize (int n)) vsize - 1]"

definition reduced_total :: "'a::{zero,plus,times} list \<Rightarrow> 'a list \<Rightarrow> int \<Rightarrow> nat \<Rightarrow> 'a" where
  "reduced_total xs ys vsize n =
     foldl (+) (thread_partial xs ys vsize n 0) (map (thread_partial xs ys vsize n) [1..<n])"

definition dot_calls :: "addr \<Rightarrow> ThreadFactory_internal \<Rightarrow> nat \<Rightarrow> nat \<Rightarrow> call list" where
  "dot_calls p F n k =
     malloc_calls F n (int n * sizeof_double) k
       @ [sync_call F n k, sync_call F n k, sync_call F n k]
       @ (if k = 0 then [Call_free (Some p)] else [])"

subsection \<open>Parts of the library functions\<close>

text \<open>
  The statements of \<open>mylib_ThreadControl_malloc\<close>, \<open>mylib_ThreadControl_free\<close> and
  \<open>mylib_vector_dot\<close> between their barriers, named for the proofs.
\<close>

definition malloc_publish ::
    "(addr \<times> (nat \<Rightarrow> 'a)) option \<Rightarrow> pointer \<Rightarrow> int \<Rightarrow> ('a world, unit) prog" where
  "malloc_publish m tcontrol num_bytes =
     pbind (load_control tcontrol) (\<lambda>tc.
             if tid tc = 0
             then pbind (c_malloc m (tid tc) num_bytes) (store_shared_data (shared_context tc))
             else Return ())"

definition malloc_read :: "pointer \<Rightarrow> ('a world, pointer) prog" where
  "malloc_read tcontrol =
     pbind (load_control tcontrol) (\<lambda>tc.
           pbind (load_factory (shared_context tc)) (\<lambda>f.
             Return (shared_data f)))"

definition free_release :: "pointer \<Rightarrow> pointer \<Rightarrow> ('a world, unit) prog" where
  "free_release tcontrol ptr =
     pbind (load_control tcontrol) (\<lambda>tc.
          if tid tc = 0 then c_free (tid tc) ptr else Return ())"

definition dot_finish ::
    "pointer \<Rightarrow> pointer \<Rightarrow> pointer \<Rightarrow> ThreadControl_internal \<Rightarrow> ('a::plus world, unit) prog" where
  "dot_finish tcontrol dotresult thread_results tc =
     pseq (if tid tc = 0
           then pseq (reduce_loop thread_results 1 (tsize tc))
                     (pbind (load thread_results 0) (store dotresult 0))
           else Return ())
    (pseq (mylib_ThreadControl_sync tcontrol)
          (mylib_ThreadControl_free tcontrol thread_results))"

definition dot_body ::
    "pointer \<Rightarrow> pointer \<Rightarrow> pointer \<Rightarrow> pointer \<Rightarrow> int \<Rightarrow> pointer
       \<Rightarrow> ('a::{zero,plus,times} world, unit) prog" where
  "dot_body tcontrol v1 v2 dotresult vsize thread_results =
     pbind (load_control tcontrol) (\<lambda>tc.
     pseq (store thread_results (tid tc) 0)
    (pseq (if tsize tc = 0 then Fail DivisionByZero
           else if c_int (vsize - 1) = INT_MIN \<and> tsize tc = - 1 then Fail DivisionOverflow
           else
             let ept = elements_per_thread vsize (tsize tc)
             in dot_loop v1 v2 thread_results (tid tc)
                  (begin_index (tid tc) ept) (end_index (tid tc) ept vsize))
    (pseq (mylib_ThreadControl_sync tcontrol)
          (dot_finish tcontrol dotresult thread_results tc))))"

text \<open>Every write of the thread code \<open>p\<close> leaves the part \<open>X\<close> of the world as it is.\<close>

primrec keeps :: "('w \<Rightarrow> 'x) \<Rightarrow> ('w, 'r) prog \<Rightarrow> bool" where
  "keeps X (Return r) = True"
| "keeps X (Fail e) = True"
| "keeps X (Sync p) = keeps X p"
| "keeps X (Read f) = (\<forall>w. keeps X (f w))"
| "keeps X (Write g p) = ((\<forall>w. X (g w) = X w) \<and> keeps X p)"

subsection \<open>Example inputs\<close>

text \<open>
  Two threads that share the factory at address 100, two input vectors at 10 and 11
  and an output at 12.
\<close>

definition example_world :: "int world" where
  "example_world =
     \<lparr>factories = [100 \<mapsto> \<lparr>sync = Some 1, sync_data = Some 2, shared_data = None\<rparr>],
      controls = [200 \<mapsto> \<lparr>tid = 0, tsize = 2, shared_context = Some 100\<rparr>,
                  201 \<mapsto> \<lparr>tid = 1, tsize = 2, shared_context = Some 100\<rparr>],
      buffers = [10 \<mapsto> [1, 2, 3], 11 \<mapsto> [4, 5, 6], 12 \<mapsto> [0, 0, 0]],
      calls = (\<lambda>_. [])\<rparr>"

definition example_block :: "(addr \<times> (nat \<Rightarrow> int)) option" where
  "example_block = Some (50, \<lambda>_. 0)"

definition example_junk :: ThreadFactory_internal where
  "example_junk = \<lparr>sync = Some 7, sync_data = Some 8, shared_data = Some 9\<rparr>"

definition example_schedules :: "nat list list" where
  "example_schedules = [[0, 1], [1, 0], [0, 1], [1, 0, 1], [0, 1], [1, 0]]"

definition small_world :: "int world" where
  "small_world = example_world\<lparr>buffers := [10 \<mapsto> [1], 11 \<mapsto> [4], 12 \<mapsto> [0], 13 \<mapsto> [0, 0]]\<rparr>"

text \<open>
  Vectors of \<open>INT_MAX\<close> elements, for the same two threads and for the last of 65538
  threads.
\<close>

definition long_vector :: "int list" where
  "long_vector = replicate 2147483647 1"

definition long_output :: "int list" where
  "long_output = replicate 2147483647 0"

definition long_world :: "int world" where
  "long_world = example_world\<lparr>buffers :=
      [10 \<mapsto> long_vector, 11 \<mapsto> long_vector, 12 \<mapsto> long_output, 13 \<mapsto> [0]]\<rparr>"

definition many_world :: "int world" where
  "many_world = long_world\<lparr>controls :=
      [200 \<mapsto> \<lparr>tid = 65537, tsize = 65538, shared_context = Some 100\<rparr>]\<rparr>"

definition stale_world :: "int world" where
  "stale_world = example_world\<lparr>factories :=
      [100 \<mapsto> \<lparr>sync = Some 1, sync_data = Some 2, shared_data = Some 12\<rparr>]\<rparr>"

section \<open>Index ranges\<close>

lemma c_int_id: "INT_MIN \<le> x \<Longrightarrow> x \<le> INT_MAX \<Longrightarrow> c_int x = x"
  by (simp add: c_int_def INT_MIN_def INT_MAX_def)

lemma c_int_range: "INT_MIN \<le> c_int x" "c_int x \<le> INT_MAX"
  by (simp_all add: c_int_def INT_MIN_def INT_MAX_def)

lemma c_int_idem [simp]: "c_int (c_int x) = c_int x"
  by (simp add: c_int_def)

lemma c_int_nat: "0 \<le> x \<Longrightarrow> x \<le> INT_MAX \<Longrightarrow> c_int x = x"
  by (rule c_int_id) (simp_all add: INT_MIN_def)

lemma c_div_nonneg: "0 \<le> a \<Longrightarrow> 0 < b \<Longrightarrow> c_div a b = a div b"
  by (cases "a = 0") (simp_all add: c_div_def)

text \<open>
  For a vector size that an \<open>int\<close> can hold, no step of the computation of
  \<open>elements_per_thread\<close> overflows.
\<close>

lemma ept_exact:
  assumes "1 \<le> n" "0 \<le> vsize" "vsize \<le> INT_MAX"
  shows "elements_per_thread vsize n = c_div (vsize - 1) n + 1"
proof -
  have a: "c_int (vsize - 1) = vsize - 1"
    using assms by (intro c_int_id) (simp_all add: INT_MIN_def)
  have q: "- 1 \<le> c_div (vsize - 1) n \<and> c_div (vsize - 1) n + 1 \<le> max vsize 1"
  proof (cases "vsize = 0")
    case True
    have "(1::int) div n = (if n = 1 then 1 else 0)"
      using assms(1) by (cases "n = 1") (simp_all add: div_pos_pos_trivial)
    then show ?thesis using True assms(1) by (simp add: c_div_def sgn_if)
  next
    case False
    then have v: "0 \<le> vsize - 1" using assms(2) by simp
    have q0: "0 \<le> (vsize - 1) div n" using assms(1) v by (simp add: pos_imp_zdiv_nonneg_iff)
    have "n * ((vsize - 1) div n) + (vsize - 1) mod n = vsize - 1" by simp
    moreover have "0 \<le> (vsize - 1) mod n" using assms(1) by simp
    moreover have "(vsize - 1) div n \<le> n * ((vsize - 1) div n)"
      using q0 assms(1) by (simp add: mult_le_cancel_right1)
    ultimately have "(vsize - 1) div n \<le> vsize - 1" by linarith
    then show ?thesis using q0 assms(1) v by (simp add: c_div_nonneg)
  qed
  have b: "c_int (c_div (vsize - 1) n) = c_div (vsize - 1) n"
    using q assms
    by (intro c_int_id) (simp_all add: INT_MIN_def INT_MAX_def max_def split: if_splits)
  have c: "c_int (c_div (vsize - 1) n + 1) = c_div (vsize - 1) n + 1"
    using q assms
    by (intro c_int_id) (simp_all add: INT_MIN_def INT_MAX_def max_def split: if_splits)
  show ?thesis by (simp add: elements_per_thread_def a b c)
qed

lemma ept_pos:
  assumes "1 \<le> n" "1 \<le> vsize" "vsize \<le> INT_MAX"
  shows "elements_per_thread vsize n = (vsize - 1) div n + 1"
  using assms by (simp add: ept_exact c_div_nonneg)

lemma ept_zero: "1 \<le> n \<Longrightarrow> elements_per_thread 0 n = (if n = 1 then 0 else 1)"
  by (auto simp add: ept_exact INT_MAX_def c_div_def sgn_if)

lemma ept_nonneg:
  assumes "1 \<le> n" "0 \<le> vsize" "vsize \<le> INT_MAX"
  shows "0 \<le> elements_per_thread vsize n"
proof (cases "vsize = 0")
  case True
  then show ?thesis using assms by (simp add: ept_zero)
next
  case False
  then have "1 \<le> vsize" using assms by simp
  then have "0 \<le> (vsize - 1) div n" using assms by (simp add: pos_imp_zdiv_nonneg_iff)
  then show ?thesis using assms \<open>1 \<le> vsize\<close> by (simp add: ept_pos)
qed

lemma ept_ge1:
  assumes "1 \<le> n" "1 \<le> vsize" "vsize \<le> INT_MAX"
  shows "1 \<le> elements_per_thread vsize n"
proof -
  have "0 \<le> (vsize - 1) div n" using assms by (simp add: pos_imp_zdiv_nonneg_iff)
  then show ?thesis using assms by (simp add: ept_pos)
qed

lemma ept_cover:
  assumes "1 \<le> n" "1 \<le> vsize" "vsize \<le> INT_MAX"
  shows "vsize \<le> n * elements_per_thread vsize n"
proof -
  have "vsize - 1 = n * ((vsize - 1) div n) + (vsize - 1) mod n" by simp
  moreover have "(vsize - 1) mod n < n" using assms by simp
  ultimately have "vsize - 1 < n * ((vsize - 1) div n) + n" by linarith
  then show ?thesis using assms by (simp add: ept_pos algebra_simps)
qed

lemma ept_total:
  assumes "1 \<le> n" "0 \<le> vsize" "vsize \<le> INT_MAX"
  shows "n * elements_per_thread vsize n \<le> vsize + n"
proof (cases "vsize = 0")
  case True
  then show ?thesis using assms(1) by (auto simp add: ept_zero)
next
  case False
  then have v: "1 \<le> vsize" using assms(2) by simp
  have "n * ((vsize - 1) div n) + (vsize - 1) mod n = vsize - 1" by simp
  moreover have "0 \<le> (vsize - 1) mod n" using assms(1) by simp
  ultimately have "n * ((vsize - 1) div n) \<le> vsize - 1" by linarith
  then show ?thesis using assms v by (simp add: ept_pos algebra_simps)
qed

text \<open>
  With \<open>vsize + n\<close> within \<open>int\<close>, the products \<open>t * elements_per_thread\<close> and
  \<open>(t + 1) * elements_per_thread\<close> of a thread \<open>0 \<le> t < n\<close> do not overflow.
\<close>

lemma index_products:
  assumes "1 \<le> n" "0 \<le> vsize" "vsize + n \<le> INT_MAX" "0 \<le> t" "t < n"
  shows "0 \<le> t * elements_per_thread vsize n"
    and "t * elements_per_thread vsize n \<le> (t + 1) * elements_per_thread vsize n"
    and "(t + 1) * elements_per_thread vsize n \<le> INT_MAX"
proof -
  define e where "e = elements_per_thread vsize n"
  have vm: "vsize \<le> INT_MAX" using assms by simp
  have e0: "0 \<le> e" unfolding e_def by (rule ept_nonneg [OF assms(1,2) vm])
  have ne: "n * e \<le> vsize + n" unfolding e_def by (rule ept_total [OF assms(1,2) vm])
  have te: "(t + 1) * e \<le> n * e" using assms e0 by (intro mult_right_mono) simp_all
  show "0 \<le> t * elements_per_thread vsize n" using assms(4) e0 by (simp add: e_def)
  show "t * elements_per_thread vsize n \<le> (t + 1) * elements_per_thread vsize n"
    using e0 by (simp add: e_def algebra_simps)
  show "(t + 1) * elements_per_thread vsize n \<le> INT_MAX"
    using te ne assms(3) unfolding e_def by linarith
qed

lemma begin_exact:
  assumes "1 \<le> n" "0 \<le> vsize" "vsize + n \<le> INT_MAX" "0 \<le> t" "t < n"
  shows "begin_index t (elements_per_thread vsize n) = t * elements_per_thread vsize n"
  unfolding begin_index_def using index_products [OF assms] by (intro c_int_nat) linarith+

lemma end_exact:
  assumes "1 \<le> n" "0 \<le> vsize" "vsize + n \<le> INT_MAX" "0 \<le> t" "t < n"
  shows "end_index t (elements_per_thread vsize n) vsize =
         (if (t + 1) * elements_per_thread vsize n > vsize then vsize
          else (t + 1) * elements_per_thread vsize n)"
proof -
  have a: "c_int (t + 1) = t + 1" using assms by (intro c_int_nat) simp_all
  have b: "c_int ((t + 1) * elements_per_thread vsize n) = (t + 1) * elements_per_thread vsize n"
    using index_products [OF assms] by (intro c_int_nat) linarith+
  show ?thesis by (simp add: end_index_def a b)
qed

lemma begin_in_int [simp]: "c_int (begin_index t ept) = begin_index t ept"
  by (simp add: begin_index_def)

lemma end_in_int: "c_int vsize = vsize \<Longrightarrow> c_int (end_index t ept vsize) = end_index t ept vsize"
  by (simp add: end_index_def)

lemma begin_nonneg:
  assumes "1 \<le> n" "0 \<le> vsize" "vsize + n \<le> INT_MAX" "0 \<le> t" "t < n"
  shows "0 \<le> begin_index t (elements_per_thread vsize n)"
  using index_products(1) [OF assms] by (simp add: begin_exact [OF assms])

lemma end_le_vsize: "end_index t ept vsize \<le> vsize"
  by (simp add: end_index_def)

lemma end_le_next:
  assumes "1 \<le> n" "0 \<le> vsize" "vsize + n \<le> INT_MAX" "0 \<le> t" "t < n"
  shows "end_index t (elements_per_thread vsize n) vsize \<le> (t + 1) * elements_per_thread vsize n"
  by (simp add: end_exact [OF assms])

lemma end_le_begin:
  assumes "1 \<le> n" "0 \<le> vsize" "vsize + n \<le> INT_MAX" "0 \<le> s" "s < t" "t < n"
  shows "end_index s (elements_per_thread vsize n) vsize
         \<le> begin_index t (elements_per_thread vsize n)"
proof -
  define e where "e = elements_per_thread vsize n"
  have e0: "0 \<le> e" unfolding e_def using assms by (intro ept_nonneg) simp_all
  have s: "s < n" and t: "0 \<le> t" using assms by simp_all
  have "(s + 1) * e \<le> t * e" using e0 assms by (intro mult_right_mono) auto
  then show ?thesis
    using end_le_next [OF assms(1,2,3,4) s] begin_exact [OF assms(1,2,3) t assms(6)]
    by (simp add: e_def)
qed

lemma range_subset:
  assumes "1 \<le> n" "0 \<le> vsize" "vsize + n \<le> INT_MAX" "0 \<le> t" "t < n"
  shows "{begin_index t (elements_per_thread vsize n)..<end_index t (elements_per_thread vsize n) vsize} \<subseteq> {0..<vsize}"
  using begin_nonneg [OF assms] end_le_vsize [of t "elements_per_thread vsize n" vsize] by auto

lemma range_owner:
  assumes "1 \<le> n" "vsize + n \<le> INT_MAX" "0 \<le> i" "i < vsize"
  shows "\<exists>t. 0 \<le> t \<and> t < n \<and> begin_index t (elements_per_thread vsize n) \<le> i
           \<and> i < end_index t (elements_per_thread vsize n) vsize"
proof -
  define e where "e = elements_per_thread vsize n"
  define t where "t = i div e"
  have v: "1 \<le> vsize" and v0: "0 \<le> vsize" and vm: "vsize \<le> INT_MAX" using assms by simp_all
  have e: "1 \<le> e" unfolding e_def by (rule ept_ge1 [OF assms(1) v vm])
  have t0: "0 \<le> t" using e assms by (simp add: t_def pos_imp_zdiv_nonneg_iff)
  have split: "e * t + i mod e = i" by (simp add: t_def)
  have m0: "0 \<le> i mod e" and m1: "i mod e < e" using e by simp_all
  have lo: "t * e \<le> i" using split m0 by (simp add: mult.commute)
  have hi: "i < (t + 1) * e" using split m1 by (simp add: algebra_simps)
  have cover: "i < n * e" using ept_cover [OF assms(1) v vm] assms by (simp add: e_def)
  have tn: "t < n"
  proof (rule ccontr)
    assume "\<not> t < n"
    then have "n * e \<le> t * e" using e by (intro mult_right_mono) auto
    then show False using lo cover by simp
  qed
  have "begin_index t e \<le> i"
    using lo begin_exact [OF assms(1) v0 assms(2) t0 tn] by (simp add: e_def)
  moreover have "i < end_index t e vsize"
    using hi assms end_exact [OF assms(1) v0 assms(2) t0 tn] by (simp add: e_def)
  ultimately show ?thesis using t0 tn unfolding e_def by blast
qed

text \<open>
  Claim C2 says that the ranges partition \<open>[0, vsize)\<close> for every \<open>tsize \<ge> 1\<close> and
  \<open>vsize \<ge> 0\<close>. For two threads and \<open>vsize = INT_MAX\<close>, \<open>elements_per_thread\<close> is \<open>2 ^ 30\<close>.
  The range of thread 0 is \<open>[0, 2 ^ 30)\<close>. For thread 1 the product
  \<open>(tid + 1) * elements_per_thread = 2 ^ 31\<close> does not fit an \<open>int\<close>: \<open>end_index\<close> becomes
  \<open>INT_MIN\<close> and the range is empty. The index \<open>2 ^ 30\<close> is in no range.
\<close>

theorem thread_ranges_counterexample:
  "(1073741824::int) \<in> {0..<2147483647}
   \<and> 1073741824 \<notin> (\<Union>t\<in>{0..<2}. {begin_index t (elements_per_thread 2147483647 2)..<
                            end_index t (elements_per_thread 2147483647 2) 2147483647})"
proof -
  have e: "elements_per_thread 2147483647 2 = 1073741824"
    by (simp add: elements_per_thread_def c_div_def c_int_def)
  have two: "{0..<2::int} = {0, 1}" by auto
  have r0: "end_index 0 1073741824 2147483647 = 1073741824"
    by (simp add: end_index_def c_int_def)
  have r1: "end_index 1 1073741824 2147483647 = - 2147483648"
    by (simp add: end_index_def c_int_def)
  show ?thesis unfolding e two by (simp add: r0 r1)
qed

text \<open>
  Claim C2, amended. For a thread count \<open>n \<ge> 1\<close> and a vector size \<open>vsize \<ge> 0\<close> with
  \<open>vsize + n \<le> INT_MAX\<close>, the half-open ranges from \<open>begin_index\<close> to \<open>end_index\<close> of
  the threads \<open>0 \<le> t < n\<close>, with \<open>elements_per_thread = (vsize - 1) / n + 1\<close> in
  truncating division, partition the indices \<open>0 \<le> i < vsize\<close>: their union is the
  whole interval, and the ranges of two different threads have no index in common.
\<close>

theorem thread_ranges_partition:
  assumes "1 \<le> n" and "0 \<le> vsize" and "vsize + n \<le> INT_MAX"
  shows "(\<Union>t\<in>{0..<n}. {begin_index t (elements_per_thread vsize n)..<
                          end_index t (elements_per_thread vsize n) vsize}) = {0..<vsize}
       \<and> (\<forall>s\<in>{0..<n}. \<forall>t\<in>{0..<n}. s \<noteq> t \<longrightarrow>
            {begin_index s (elements_per_thread vsize n)..<
               end_index s (elements_per_thread vsize n) vsize}
          \<inter> {begin_index t (elements_per_thread vsize n)..<
               end_index t (elements_per_thread vsize n) vsize} = {})"
proof (intro conjI ballI impI)
  show "(\<Union>t\<in>{0..<n}. {begin_index t (elements_per_thread vsize n)..<
            end_index t (elements_per_thread vsize n) vsize}) = {0..<vsize}"
  proof (intro equalityI subsetI)
    fix i assume "i \<in> (\<Union>t\<in>{0..<n}. {begin_index t (elements_per_thread vsize n)..<
            end_index t (elements_per_thread vsize n) vsize})"
    then obtain t where "0 \<le> t" "t < n" and
      "i \<in> {begin_index t (elements_per_thread vsize n)..<
            end_index t (elements_per_thread vsize n) vsize}" by auto
    then show "i \<in> {0..<vsize}" using range_subset [OF assms, of t] by blast
  next
    fix i assume "i \<in> {0..<vsize}"
    then have "0 \<le> i" "i < vsize" by simp_all
    from range_owner [OF assms(1,3) this] show "i \<in> (\<Union>t\<in>{0..<n}.
        {begin_index t (elements_per_thread vsize n)..<
            end_index t (elements_per_thread vsize n) vsize})" by auto
  qed
next
  fix s t :: int
  assume st: "s \<in> {0..<n}" "t \<in> {0..<n}" "s \<noteq> t"
  show "{begin_index s (elements_per_thread vsize n)..<
               end_index s (elements_per_thread vsize n) vsize}
          \<inter> {begin_index t (elements_per_thread vsize n)..<
               end_index t (elements_per_thread vsize n) vsize} = {}"
  proof (cases "s < t")
    case True
    from end_le_begin [OF assms _ this] st show ?thesis by auto
  next
    case False
    then have "t < s" using st by simp
    from end_le_begin [OF assms _ this] st show ?thesis by auto
  qed
qed

theorem thread_ranges_partition_witness:
  "(1::int) \<le> 3 \<and> (0::int) \<le> 10 \<and> 10 + 3 \<le> INT_MAX
   \<and> (\<Union>t\<in>{0..<3}. {begin_index t (elements_per_thread 10 3)..<
                          end_index t (elements_per_thread 10 3) 10}) = {0..<10}
   \<and> {begin_index 0 (elements_per_thread 10 3)..<end_index 0 (elements_per_thread 10 3) 10}
     \<inter> {begin_index 2 (elements_per_thread 10 3)..<end_index 2 (elements_per_thread 10 3) 10} = {}"
proof -
  have h1: "(1::int) \<le> 3" and h2: "(0::int) \<le> 10" and h3: "10 + 3 \<le> INT_MAX"
    by (simp_all add: INT_MAX_def)
  have m0: "(0::int) \<in> {0..<3}" and m2: "(2::int) \<in> {0..<3}" and ne: "(0::int) \<noteq> 2"
    by simp_all
  note p = thread_ranges_partition [OF h1 h2 h3]
  from p have u: "(\<Union>t\<in>{0..<3}. {begin_index t (elements_per_thread 10 3)..<
                          end_index t (elements_per_thread 10 3) 10}) = {0..<10}"
    by (rule conjunct1)
  from p [THEN conjunct2, rule_format, OF m0 m2 ne] u h1 h2 h3 show ?thesis
    by (intro conjI)
qed

text \<open>
  Claim C5 says that the sizes of the ranges of two threads differ by at most one.
  For three threads and ten elements the ranges are \<open>[0, 4)\<close>, \<open>[4, 8)\<close> and
  \<open>[8, 10)\<close>: the first has four elements and the last has two.
\<close>

theorem range_sizes_counterexample:
  "\<not> \<bar>int (card {begin_index 0 (elements_per_thread 10 3)..<
                    end_index 0 (elements_per_thread 10 3) 10})
       - int (card {begin_index 2 (elements_per_thread 10 3)..<
                    end_index 2 (elements_per_thread 10 3) 10})\<bar> \<le> 1"
  by (simp add: elements_per_thread_def c_div_def begin_index_def end_index_def c_int_def)

text \<open>
  Claim C5, amended. For \<open>n \<ge> 1\<close> and \<open>vsize \<ge> 0\<close> with \<open>vsize + n \<le> INT_MAX\<close>, the
  range of a thread \<open>0 \<le> t < n\<close> has \<open>elements_per_thread\<close> elements when it ends at or
  before \<open>vsize\<close>, the remaining \<open>vsize - t * elements_per_thread\<close> elements when it is
  cut at \<open>vsize\<close>, and none when it begins beyond \<open>vsize\<close>. So the sizes of the ranges
  of two threads differ by at most \<open>elements_per_thread\<close>.
\<close>

theorem range_sizes:
  assumes "1 \<le> n" and "0 \<le> vsize" and "vsize + n \<le> INT_MAX"
    and "0 \<le> s" and "s < n" and "0 \<le> t" and "t < n"
  shows "int (card {begin_index t (elements_per_thread vsize n)..<
                    end_index t (elements_per_thread vsize n) vsize})
         = (if (t + 1) * elements_per_thread vsize n \<le> vsize then elements_per_thread vsize n
            else if t * elements_per_thread vsize n \<le> vsize
                 then vsize - t * elements_per_thread vsize n
            else 0)
       \<and> \<bar>int (card {begin_index s (elements_per_thread vsize n)..<
                       end_index s (elements_per_thread vsize n) vsize})
          - int (card {begin_index t (elements_per_thread vsize n)..<
                       end_index t (elements_per_thread vsize n) vsize})\<bar>
         \<le> elements_per_thread vsize n"
proof -
  define e where "e = elements_per_thread vsize n"
  have e0: "0 \<le> e" unfolding e_def using assms by (intro ept_nonneg) simp_all
  have size: "int (card {begin_index u e..<end_index u e vsize})
         = (if (u + 1) * e \<le> vsize then e else if u * e \<le> vsize then vsize - u * e else 0)"
    if "0 \<le> u" "u < n" for u
    using e0 begin_exact [OF assms(1,2,3) that] end_exact [OF assms(1,2,3) that]
    unfolding e_def [symmetric] by (auto simp add: algebra_simps)
  have bound: "0 \<le> int (card {begin_index u e..<end_index u e vsize})
      \<and> int (card {begin_index u e..<end_index u e vsize}) \<le> e" if "0 \<le> u" "u < n" for u
    unfolding size [OF that] using e0 by (auto simp add: algebra_simps)
  from bound [OF assms(4,5)] bound [OF assms(6,7)] size [OF assms(6,7)] show ?thesis
    unfolding e_def [symmetric] by linarith
qed

theorem range_sizes_witness:
  "(1::int) \<le> 3 \<and> (0::int) \<le> 10 \<and> 10 + 3 \<le> INT_MAX
   \<and> int (card {begin_index 2 (elements_per_thread 10 3)..<
                 end_index 2 (elements_per_thread 10 3) 10}) = 2
   \<and> \<bar>int (card {begin_index 0 (elements_per_thread 10 3)..<
                   end_index 0 (elements_per_thread 10 3) 10})
      - int (card {begin_index 2 (elements_per_thread 10 3)..<
                   end_index 2 (elements_per_thread 10 3) 10})\<bar> \<le> 4"
proof -
  have h: "(1::int) \<le> 3" "(0::int) \<le> 10" "10 + 3 \<le> INT_MAX"
    "(0::int) \<le> 0" "(0::int) < 3" "(0::int) \<le> 2" "(2::int) < 3"
    by (simp_all add: INT_MAX_def)
  have e: "elements_per_thread 10 3 = 4"
    by (simp add: elements_per_thread_def c_div_def c_int_def)
  have v: "(if (2 + 1) * elements_per_thread 10 3 \<le> 10 then elements_per_thread 10 3
            else if 2 * elements_per_thread 10 3 \<le> 10
                 then 10 - 2 * elements_per_thread 10 3
            else 0) = 2"
    by (simp add: e)
  have e4: "elements_per_thread 10 3 \<le> 4" by (simp add: e)
  note r = range_sizes [OF h]
  from r [THEN conjunct1] have c1: "int (card {begin_index 2 (elements_per_thread 10 3)..<
                 end_index 2 (elements_per_thread 10 3) 10}) = 2"
    unfolding v .
  from r [THEN conjunct2] e4 have c2: "\<bar>int (card {begin_index 0 (elements_per_thread 10 3)..<
                   end_index 0 (elements_per_thread 10 3) 10})
      - int (card {begin_index 2 (elements_per_thread 10 3)..<
                   end_index 2 (elements_per_thread 10 3) 10})\<bar> \<le> 4"
    by (rule order_trans)
  from h(1,2,3) c1 c2 show ?thesis by (intro conjI)
qed

section \<open>Running one thread\<close>

lemma pbind_assoc: "pbind (pbind p f) g = pbind p (\<lambda>x. pbind (f x) g)"
  by (induction p) simp_all

lemma pbind_Return: "pbind p Return = p"
  by (induction p) simp_all

lemma advance_idle: "finished p \<or> waiting p \<Longrightarrow> advance p w = Inr (w, p)"
  by (cases p) simp_all

lemma advance_load_control:
  "advance (pbind (load_control tcontrol) k) w =
     (case tcontrol of
        None \<Rightarrow> Inl NullDereference
      | Some a \<Rightarrow> (case controls w a of None \<Rightarrow> Inl InvalidPointer | Some tc \<Rightarrow> advance (k tc) w))"
  by (simp add: load_control_def split: option.splits)

lemma advance_load_factory:
  "advance (pbind (load_factory tfactory) k) w =
     (case tfactory of
        None \<Rightarrow> Inl NullDereference
      | Some a \<Rightarrow> (case factories w a of None \<Rightarrow> Inl InvalidPointer | Some f \<Rightarrow> advance (k f) w))"
  by (simp add: load_factory_def split: option.splits)

lemma advance_store_shared_data:
  "advance (pbind (store_shared_data tfactory v) k) w =
     (case tfactory of
        None \<Rightarrow> Inl NullDereference
      | Some a \<Rightarrow> (case factories w a of
           None \<Rightarrow> Inl InvalidPointer
         | Some f \<Rightarrow> advance (k ()) (w\<lparr>factories := (factories w)(a \<mapsto> f\<lparr>shared_data := v\<rparr>)\<rparr>)))"
  by (simp add: store_shared_data_def split: option.splits)

lemma advance_load:
  "advance (pbind (load p i) k) w =
     (case p of
        None \<Rightarrow> Inl NullDereference
      | Some a \<Rightarrow> (case buffers w a of
           None \<Rightarrow> Inl InvalidPointer
         | Some xs \<Rightarrow>
             if 0 \<le> i \<and> i < int (length xs) then advance (k (xs ! nat i)) w else Inl OutOfBounds))"
  by (simp add: load_def split: option.splits)

lemma advance_store:
  "advance (pbind (store p i v) k) w =
     (case p of
        None \<Rightarrow> Inl NullDereference
      | Some a \<Rightarrow> (case buffers w a of
           None \<Rightarrow> Inl InvalidPointer
         | Some xs \<Rightarrow>
             if 0 \<le> i \<and> i < int (length xs)
             then advance (k ()) (w\<lparr>buffers := (buffers w)(a \<mapsto> xs[nat i := v])\<rparr>)
             else Inl OutOfBounds))"
  by (simp add: store_def split: option.splits)

lemma advance_log_call:
  "advance (pbind (log_call t c) k) w = advance (k ()) (w\<lparr>calls := (calls w)(t := calls w t @ [c])\<rparr>)"
  by (simp add: log_call_def)

lemma advance_c_malloc:
  "advance (pbind (c_malloc m t num_bytes) k) w =
     (case m of
        None \<Rightarrow> advance (k None) (w\<lparr>calls := (calls w)(t := calls w t @ [Call_malloc num_bytes])\<rparr>)
      | Some (p, junk) \<Rightarrow>
          advance (k (Some p))
            (w\<lparr>calls := (calls w)(t := calls w t @ [Call_malloc num_bytes]),
               buffers := (buffers w)(p \<mapsto> map junk [0..<nat (c_div num_bytes sizeof_double)])\<rparr>))"
  by (simp add: c_malloc_def pseq_def pbind_assoc advance_log_call split: option.splits)

lemma advance_c_free:
  "advance (pbind (c_free t ptr) k) w =
     (case ptr of
        None \<Rightarrow> advance (k ()) (w\<lparr>calls := (calls w)(t := calls w t @ [Call_free ptr])\<rparr>)
      | Some a \<Rightarrow>
          if a \<in> dom (buffers w)
          then advance (k ())
                 (w\<lparr>calls := (calls w)(t := calls w t @ [Call_free ptr]),
                    buffers := (buffers w)(a := None)\<rparr>)
          else Inl InvalidFree)"
  by (simp add: c_free_def pseq_def pbind_assoc advance_log_call split: option.splits)

lemma advance_call_sync:
  "advance (pbind (call_sync callback t n data) k) w =
     (case callback of
        None \<Rightarrow> Inl NullDereference
      | Some _ \<Rightarrow>
          Inr (w\<lparr>calls := (calls w)(t := calls w t @ [Call_sync callback t n data])\<rparr>,
               Sync (k ())))"
  by (simp add: call_sync_def pseq_def pbind_assoc advance_log_call split: option.splits)

lemma advance_sync:
  "advance (pbind (mylib_ThreadControl_sync tcontrol) k) w =
     (case tcontrol of
        None \<Rightarrow> Inl NullDereference
      | Some a \<Rightarrow> (case controls w a of
           None \<Rightarrow> Inl InvalidPointer
         | Some tc \<Rightarrow> (case shared_context tc of
              None \<Rightarrow> Inl NullDereference
            | Some b \<Rightarrow> (case factories w b of
                 None \<Rightarrow> Inl InvalidPointer
               | Some f \<Rightarrow> (case sync f of
                    None \<Rightarrow> Inl NullDereference
                  | Some _ \<Rightarrow>
                      Inr (w\<lparr>calls := (calls w)(tid tc := calls w (tid tc) @
                               [Call_sync (sync f) (tid tc) (tsize tc) (sync_data f)])\<rparr>,
                           Sync (k ())))))))"
  by (simp add: mylib_ThreadControl_sync_def pbind_assoc advance_load_control
      advance_load_factory advance_call_sync split: option.splits)

lemma world_buffers_same: "buffers w a = Some xs \<Longrightarrow> w\<lparr>buffers := (buffers w)(a \<mapsto> xs)\<rparr> = w"
  by (simp add: fun_upd_idem)

subsection \<open>The loops\<close>

lemma length_sum_on [simp]: "length (sum_on S xs ys zs) = length zs"
  by (simp add: sum_on_def)

lemma sum_on_empty [simp]: "sum_on {} xs ys zs = zs"
  by (simp add: sum_on_def map_nth)

lemma sum_on_union: "sum_on S xs ys (sum_on T xs ys zs) = sum_on (S \<union> T) xs ys zs"
  by (auto simp add: sum_on_def)

lemma sum_on_step:
  assumes "0 \<le> i" "i < e" "e \<le> int (length zs)"
  shows "sum_on {i + 1..<e} xs ys (zs[nat i := xs ! nat i + ys ! nat i]) = sum_on {i..<e} xs ys zs"
  using assms by (auto simp add: sum_on_def nth_list_update)

text \<open>The increment of a loop variable below its bound does not overflow.\<close>

lemma c_int_step:
  assumes "c_int i = i" "c_int e = e" "i < e"
  shows "c_int (i + 1) = i + 1"
proof -
  have "INT_MIN \<le> i" using c_int_range(1) [of i] assms(1) by simp
  moreover have "e \<le> INT_MAX" using c_int_range(2) [of e] assms(2) by simp
  ultimately show ?thesis using assms(3) by (intro c_int_id) simp_all
qed

lemma add_loop_empty: "c_int e \<le> c_int i \<Longrightarrow> add_loop v1 v2 vresult i e = Return ()"
  by (subst add_loop.simps) simp

lemma dot_loop_empty: "c_int e \<le> c_int i \<Longrightarrow> dot_loop v1 v2 thread_results t i e = Return ()"
  by (subst dot_loop.simps) simp

lemma reduce_loop_empty: "c_int n \<le> c_int i \<Longrightarrow> reduce_loop thread_results i n = Return ()"
  by (subst reduce_loop.simps) simp

lemma add_loop_run:
  assumes "buffers w a = Some xs" "buffers w b = Some ys" "buffers w r = Some zs"
    and "r \<noteq> a" "r \<noteq> b" "0 \<le> i" "c_int i = i" "c_int e = e"
    and "e \<le> int (length xs)" "e \<le> int (length ys)" "e \<le> int (length zs)"
  shows "advance (pbind (add_loop (Some a) (Some b) (Some r) i e) k) w =
         advance (k ()) (w\<lparr>buffers := (buffers w)(r \<mapsto> sum_on {i..<e} xs ys zs)\<rparr>)"
  using assms
proof (induction "nat (e - i)" arbitrary: i w zs)
  case 0
  then have "c_int e \<le> c_int i" by simp
  then have em: "add_loop (Some a) (Some b) (Some r) i e = Return ()" by (rule add_loop_empty)
  have same: "w\<lparr>buffers := (buffers w)(r \<mapsto> zs)\<rparr> = w"
    using 0 by (intro world_buffers_same) simp
  have "\<not> i < e" using 0 by simp
  then have none: "sum_on {i..<e} xs ys zs = zs" by simp
  show ?case unfolding em none same by simp
next
  case (Suc d)
  then have lt: "i < e" by simp
  let ?zs = "zs[nat i := xs ! nat i + ys ! nat i]"
  let ?w = "w\<lparr>buffers := (buffers w)(r \<mapsto> ?zs)\<rparr>"
  have d: "d = nat (e - (i + 1))" using Suc.hyps(2) by simp
  have nx: "c_int (i + 1) = i + 1" using Suc.prems lt by (intro c_int_step)
  have step: "advance (pbind (add_loop (Some a) (Some b) (Some r) i e) k) w
      = advance (pbind (add_loop (Some a) (Some b) (Some r) (i + 1) e) k) ?w"
    using lt Suc.prems nx
    by (subst add_loop.simps) (simp add: pbind_assoc pseq_def advance_load advance_store)
  have "advance (pbind (add_loop (Some a) (Some b) (Some r) (i + 1) e) k) ?w
      = advance (k ()) (?w\<lparr>buffers := (buffers ?w)(r \<mapsto> sum_on {i + 1..<e} xs ys ?zs)\<rparr>)"
    using Suc.prems nx by (intro Suc.hyps(1) [OF d]) simp_all
  also have "\<dots> = advance (k ()) (w\<lparr>buffers := (buffers w)(r \<mapsto> sum_on {i..<e} xs ys zs)\<rparr>)"
    using Suc.prems lt by (simp add: sum_on_step)
  finally show ?case using step by simp
qed

lemma add_loop_safe:
  assumes "\<forall>q\<in>{a, b, r}. \<exists>xs. buffers w q = Some xs \<and> e \<le> int (length xs)" and "0 \<le> i"
    and "c_int i = i" "c_int e = e"
  shows "\<exists>w'. advance (pbind (add_loop (Some a) (Some b) (Some r) i e) k) w = advance (k ()) w'"
  using assms
proof (induction "nat (e - i)" arbitrary: i w)
  case 0
  then have "c_int e \<le> c_int i" by simp
  then show ?case by (auto simp add: add_loop_empty)
next
  case (Suc d)
  then have lt: "i < e" by simp
  have d: "d = nat (e - (i + 1))" using Suc.hyps(2) by simp
  have nx: "c_int (i + 1) = i + 1" using Suc.prems lt by (intro c_int_step)
  have i1: "0 \<le> i + 1" using Suc.prems(2) by simp
  from Suc.prems obtain xs ys zs where
    bufs: "buffers w a = Some xs" "buffers w b = Some ys" "buffers w r = Some zs"
    and len: "e \<le> int (length xs)" "e \<le> int (length ys)" "e \<le> int (length zs)"
    by auto
  let ?w = "w\<lparr>buffers := (buffers w)(r \<mapsto> zs[nat i := xs ! nat i + ys ! nat i])\<rparr>"
  have step: "advance (pbind (add_loop (Some a) (Some b) (Some r) i e) k) w
      = advance (pbind (add_loop (Some a) (Some b) (Some r) (i + 1) e) k) ?w"
    using lt Suc.prems(2,3,4) bufs len nx
    by (subst add_loop.simps) (simp add: pbind_assoc pseq_def advance_load advance_store)
  have inv: "\<forall>q\<in>{a, b, r}. \<exists>xs. buffers ?w q = Some xs \<and> e \<le> int (length xs)"
    using bufs len by auto
  from Suc.hyps(1) [OF d inv i1 nx Suc.prems(4)] step show ?case by simp
qed

lemma dot_loop_safe:
  assumes "\<forall>q\<in>{a, b}. \<exists>xs. buffers w q = Some xs \<and> e \<le> int (length xs)"
    and "\<exists>ss. buffers w p = Some ss \<and> t < int (length ss)" and "0 \<le> t" and "0 \<le> i"
    and "c_int i = i" "c_int e = e"
  shows "\<exists>w'. advance (pbind (dot_loop (Some a) (Some b) (Some p) t i e) k) w = advance (k ()) w'"
  using assms
proof (induction "nat (e - i)" arbitrary: i w)
  case 0
  then have "c_int e \<le> c_int i" by simp
  then show ?case by (auto simp add: dot_loop_empty)
next
  case (Suc d)
  then have lt: "i < e" by simp
  have d: "d = nat (e - (i + 1))" using Suc.hyps(2) by simp
  have nx: "c_int (i + 1) = i + 1" using Suc.prems lt by (intro c_int_step)
  have i1: "0 \<le> i + 1" using Suc.prems(4) by simp
  from Suc.prems obtain xs ys ss where
    bufs: "buffers w a = Some xs" "buffers w b = Some ys" "buffers w p = Some ss"
    and len: "e \<le> int (length xs)" "e \<le> int (length ys)" "t < int (length ss)"
    by auto
  let ?w = "w\<lparr>buffers := (buffers w)(p \<mapsto> ss[nat t := ss ! nat t + xs ! nat i * ys ! nat i])\<rparr>"
  have step: "advance (pbind (dot_loop (Some a) (Some b) (Some p) t i e) k) w
      = advance (pbind (dot_loop (Some a) (Some b) (Some p) t (i + 1) e) k) ?w"
    using lt Suc.prems(3,4,5,6) bufs len nx
    by (subst dot_loop.simps) (simp add: pbind_assoc pseq_def advance_load advance_store)
  have inv: "\<forall>q\<in>{a, b}. \<exists>xs. buffers ?w q = Some xs \<and> e \<le> int (length xs)"
    using bufs len by auto
  have inv2: "\<exists>ss. buffers ?w p = Some ss \<and> t < int (length ss)"
    using bufs len by auto
  from Suc.hyps(1) [OF d inv inv2 Suc.prems(3) i1 nx Suc.prems(6)] step show ?case by simp
qed

lemma upto_first: "i < e \<Longrightarrow> [i..e - 1] = i # [i + 1..e - 1]"
  by (simp add: upto_rec1)

lemma dot_loop_run:
  fixes w :: "'a::{plus,times} world"
  assumes "buffers w a = Some xs" "buffers w b = Some ys" "buffers w p = Some ss"
    and "p \<noteq> a" "p \<noteq> b" "0 \<le> i" "0 \<le> t" "t < int (length ss)"
    and "c_int i = i" "c_int e = e"
    and "e \<le> int (length xs)" "e \<le> int (length ys)"
  shows "advance (pbind (dot_loop (Some a) (Some b) (Some p) t i e) k) w =
         advance (k ()) (w\<lparr>buffers := (buffers w)(p \<mapsto>
            ss[nat t := foldl (\<lambda>s j. s + xs ! nat j * ys ! nat j) (ss ! nat t) [i..e - 1]])\<rparr>)"
  using assms
proof (induction "nat (e - i)" arbitrary: i w ss)
  case 0
  then have "c_int e \<le> c_int i" by simp
  then have em: "dot_loop (Some a) (Some b) (Some p) t i e = Return ()" by (rule dot_loop_empty)
  have same: "w\<lparr>buffers := (buffers w)(p \<mapsto> ss)\<rparr> = w"
    using 0 by (intro world_buffers_same) simp
  have "\<not> i < e" using 0 by simp
  then have none: "ss[nat t := foldl (\<lambda>s j. s + xs ! nat j * ys ! nat j) (ss ! nat t) [i..e - 1]] = ss" by simp
  show ?case unfolding em none same by simp
next
  case (Suc d)
  then have lt: "i < e" by simp
  let ?ss = "ss[nat t := ss ! nat t + xs ! nat i * ys ! nat i]"
  let ?w = "w\<lparr>buffers := (buffers w)(p \<mapsto> ?ss)\<rparr>"
  have d: "d = nat (e - (i + 1))" using Suc.hyps(2) by simp
  have nx: "c_int (i + 1) = i + 1" using Suc.prems lt by (intro c_int_step)
  have step: "advance (pbind (dot_loop (Some a) (Some b) (Some p) t i e) k) w
      = advance (pbind (dot_loop (Some a) (Some b) (Some p) t (i + 1) e) k) ?w"
    using lt Suc.prems nx
    by (subst dot_loop.simps) (simp add: pbind_assoc pseq_def advance_load advance_store)
  have "advance (pbind (dot_loop (Some a) (Some b) (Some p) t (i + 1) e) k) ?w
      = advance (k ()) (?w\<lparr>buffers := (buffers ?w)(p \<mapsto>
            ?ss[nat t := foldl (\<lambda>s j. s + xs ! nat j * ys ! nat j) (?ss ! nat t) [i + 1..e - 1]])\<rparr>)"
    using Suc.prems nx by (intro Suc.hyps(1) [OF d]) simp_all
  also have "\<dots> = advance (k ()) (w\<lparr>buffers := (buffers w)(p \<mapsto>
            ss[nat t := foldl (\<lambda>s j. s + xs ! nat j * ys ! nat j) (ss ! nat t) [i..e - 1]])\<rparr>)"
    using Suc.prems lt by (simp add: upto_first)
  finally show ?case using step by simp
qed

lemma reduce_loop_run:
  fixes w :: "'a::plus world"
  assumes "buffers w p = Some ss" and "1 \<le> i" and "n \<le> int (length ss)"
    and "c_int i = i" "c_int n = n"
  shows "advance (pbind (reduce_loop (Some p) i n) k) w =
         advance (k ()) (w\<lparr>buffers := (buffers w)(p \<mapsto>
            ss[0 := foldl (+) (ss ! 0) (map (\<lambda>j. ss ! nat j) [i..n - 1])])\<rparr>)"
  using assms
proof (induction "nat (n - i)" arbitrary: i w ss)
  case 0
  then have "c_int n \<le> c_int i" by simp
  then have em: "reduce_loop (Some p) i n = Return ()" by (rule reduce_loop_empty)
  have same: "w\<lparr>buffers := (buffers w)(p \<mapsto> ss)\<rparr> = w"
    using 0 by (intro world_buffers_same) simp
  have "\<not> i < n" using 0 by simp
  then have none: "ss[0 := foldl (+) (ss ! 0) (map (\<lambda>j. ss ! nat j) [i..n - 1])] = ss" by simp
  show ?case unfolding em none same by simp
next
  case (Suc d)
  then have lt: "i < n" by simp
  let ?ss = "ss[0 := ss ! 0 + ss ! nat i]"
  let ?w = "w\<lparr>buffers := (buffers w)(p \<mapsto> ?ss)\<rparr>"
  have d: "d = nat (n - (i + 1))" using Suc.hyps(2) by simp
  have nx: "c_int (i + 1) = i + 1" using Suc.prems lt by (intro c_int_step)
  have ne: "0 < length ss" using lt Suc.prems by auto
  have step: "advance (pbind (reduce_loop (Some p) i n) k) w
      = advance (pbind (reduce_loop (Some p) (i + 1) n) k) ?w"
    using lt Suc.prems ne nx
    by (subst reduce_loop.simps) (simp add: pbind_assoc pseq_def advance_load advance_store)
  have same: "map (\<lambda>j. ?ss ! nat j) [i + 1..n - 1] = map (\<lambda>j. ss ! nat j) [i + 1..n - 1]"
    using Suc.prems by (intro map_cong) auto
  have "advance (pbind (reduce_loop (Some p) (i + 1) n) k) ?w
      = advance (k ()) (?w\<lparr>buffers := (buffers ?w)(p \<mapsto>
            ?ss[0 := foldl (+) (?ss ! 0) (map (\<lambda>j. ?ss ! nat j) [i + 1..n - 1])])\<rparr>)"
    using Suc.prems nx by (intro Suc.hyps(1) [OF d]) simp_all
  also have "\<dots> = advance (k ()) (w\<lparr>buffers := (buffers w)(p \<mapsto>
            ss[0 := foldl (+) (ss ! 0) (map (\<lambda>j. ss ! nat j) [i..n - 1])])\<rparr>)"
    unfolding same using Suc.prems lt ne by (simp add: upto_first)
  finally show ?case using step by simp
qed

text \<open>
  Claim C6 says that every index that \<open>mylib_vector_add\<close> and the accumulation loop of
  \<open>mylib_vector_dot\<close> visit lies in \<open>[0, vsize)\<close>, for every \<open>tsize \<ge> 1\<close>,
  \<open>0 \<le> tid < tsize\<close> and \<open>vsize \<ge> 0\<close>. For the last of 65538 threads and vectors of
  \<open>INT_MAX\<close> elements, \<open>elements_per_thread\<close> is \<open>2 ^ 15\<close> and both products
  \<open>tid * elements_per_thread\<close> and \<open>(tid + 1) * elements_per_thread\<close> exceed \<open>INT_MAX\<close>:
  the loop starts at a negative index, below a negative \<open>end_index\<close>, and its first
  access is outside the vectors.
\<close>

theorem vector_accesses_counterexample:
  "int (length long_vector) = 2147483647 \<and> int (length long_output) = 2147483647
   \<and> begin_index 65537 (elements_per_thread 2147483647 65538) = - 2147450880
   \<and> end_index 65537 (elements_per_thread 2147483647 65538) 2147483647 = - 2147418112
   \<and> advance (mylib_vector_add (Some 200) (Some 10) (Some 11) (Some 12) 2147483647) many_world
       = Inl OutOfBounds"
proof -
  have e: "elements_per_thread 2147483647 65538 = 32768"
    by (simp add: elements_per_thread_def c_div_def c_int_def)
  have b: "begin_index 65537 32768 = - 2147450880"
    by (simp add: begin_index_def c_int_def)
  have en: "end_index 65537 32768 2147483647 = - 2147418112"
    by (simp add: end_index_def c_int_def)
  have tc: "controls many_world 200 = Some \<lparr>tid = 65537, tsize = 65538, shared_context = Some 100\<rparr>"
    by (simp add: many_world_def)
  have buf: "buffers many_world 10 = Some long_vector"
    by (simp add: many_world_def long_world_def)
  have "advance (mylib_vector_add (Some 200) (Some 10) (Some 11) (Some 12) 2147483647) many_world
      = advance (add_loop (Some 10) (Some 11) (Some 12) (- 2147450880) (- 2147418112)) many_world"
    using tc by (simp add: mylib_vector_add_def advance_load_control Let_def e b en)
  also have "\<dots> = Inl OutOfBounds"
    using buf by (subst add_loop.simps) (simp add: c_int_def advance_load)
  finally show ?thesis
    unfolding e b en by (simp add: long_vector_def long_output_def)
qed

text \<open>
  Claim C6, amended. For a thread \<open>0 \<le> t < n\<close> of \<open>n \<ge> 1\<close> threads and vectors of
  \<open>vsize \<ge> 0\<close> elements with \<open>vsize + n \<le> INT_MAX\<close>, also when \<open>n > vsize\<close> or
  \<open>vsize = 0\<close>: the indices that \<open>mylib_vector_add\<close> and the accumulation loop of
  \<open>mylib_vector_dot\<close> visit lie in \<open>[0, vsize)\<close>, and on arrays of exactly \<open>vsize\<close>
  elements, where any other index is a fault, both run to their end. A thread whose
  range is empty reads and writes no vector element: it ends in the world in which it
  started, even with null pointers for the vectors, where any access is a fault.
\<close>

theorem vector_accesses_in_bounds:
  fixes w :: "'a::{plus,times} world"
  assumes tc: "controls w c = Some \<lparr>tid = t, tsize = n, shared_context = ctx\<rparr>"
    and n: "1 \<le> n" and t: "0 \<le> t" "t < n" and v: "0 \<le> vsize"
    and vn: "vsize + n \<le> INT_MAX"
    and bufs: "buffers w a = Some xs" "buffers w b = Some ys" "buffers w r = Some zs"
      "buffers w p = Some ss"
    and len: "int (length xs) = vsize" "int (length ys) = vsize" "int (length zs) = vsize"
      "int (length ss) = n"
  shows "{begin_index t (elements_per_thread vsize n)..<
            end_index t (elements_per_thread vsize n) vsize} \<subseteq> {0..<vsize}
    \<and> (\<exists>w'. advance (mylib_vector_add (Some c) (Some a) (Some b) (Some r) vsize) w
              = Inr (w', Return ()))
    \<and> (\<exists>w'. advance (dot_loop (Some a) (Some b) (Some p) t
                (begin_index t (elements_per_thread vsize n))
                (end_index t (elements_per_thread vsize n) vsize)) w = Inr (w', Return ()))
    \<and> (end_index t (elements_per_thread vsize n) vsize
          \<le> begin_index t (elements_per_thread vsize n) \<longrightarrow>
        advance (mylib_vector_add (Some c) v1 v2 vresult vsize) w = Inr (w, Return ())
      \<and> advance (dot_loop v1 v2 thread_results t
                (begin_index t (elements_per_thread vsize n))
                (end_index t (elements_per_thread vsize n) vsize)) w = Inr (w, Return ()))"
proof (intro conjI impI)
  let ?e = "elements_per_thread vsize n"
  show "{begin_index t ?e..<end_index t ?e vsize} \<subseteq> {0..<vsize}"
    by (rule range_subset [OF n v vn t])
  have b0: "0 \<le> begin_index t ?e" by (rule begin_nonneg [OF n v vn t])
  have e1: "end_index t ?e vsize \<le> vsize" by (rule end_le_vsize)
  have vi: "c_int vsize = vsize" using v vn n by (intro c_int_nat) simp_all
  have ei: "c_int (end_index t ?e vsize) = end_index t ?e vsize" by (rule end_in_int [OF vi])
  have "\<exists>w'. advance (pbind (add_loop (Some a) (Some b) (Some r) (begin_index t ?e)
            (end_index t ?e vsize)) Return) w = advance (Return ()) w'"
    using bufs len e1 b0 ei by (intro add_loop_safe) auto
  then show "\<exists>w'. advance (mylib_vector_add (Some c) (Some a) (Some b) (Some r) vsize) w
              = Inr (w', Return ())"
    using tc n by (simp add: mylib_vector_add_def advance_load_control pbind_Return Let_def)
  have "\<exists>w'. advance (pbind (dot_loop (Some a) (Some b) (Some p) t (begin_index t ?e)
            (end_index t ?e vsize)) Return) w = advance (Return ()) w'"
    using bufs len e1 b0 t ei by (intro dot_loop_safe) auto
  then show "\<exists>w'. advance (dot_loop (Some a) (Some b) (Some p) t (begin_index t ?e)
                (end_index t ?e vsize)) w = Inr (w', Return ())"
    by (simp add: pbind_Return)
next
  let ?e = "elements_per_thread vsize n"
  assume "end_index t (elements_per_thread vsize n) vsize
          \<le> begin_index t (elements_per_thread vsize n)"
  moreover have "c_int vsize = vsize" using v vn n by (intro c_int_nat) simp_all
  ultimately have "c_int (end_index t ?e vsize) \<le> c_int (begin_index t ?e)"
    by (simp add: end_in_int)
  then show "advance (mylib_vector_add (Some c) v1 v2 vresult vsize) w = Inr (w, Return ())"
    and "advance (dot_loop v1 v2 thread_results t
                (begin_index t (elements_per_thread vsize n))
                (end_index t (elements_per_thread vsize n) vsize)) w = Inr (w, Return ())"
    using tc n
    by (simp_all add: mylib_vector_add_def advance_load_control Let_def add_loop_empty
        dot_loop_empty)
qed

theorem vector_accesses_in_bounds_witness:
  "{begin_index 0 (elements_per_thread 1 2)..<end_index 0 (elements_per_thread 1 2) 1} = {0}
   \<and> {begin_index 0 (elements_per_thread 1 2)..<end_index 0 (elements_per_thread 1 2) 1}
     \<subseteq> {0..<1}
   \<and> (\<exists>w'. advance (mylib_vector_add (Some 200) (Some 10) (Some 11) (Some 12) 1) small_world
              = Inr (w', Return ()))
   \<and> (\<exists>w'. advance (dot_loop (Some 10) (Some 11) (Some 13) 0
                (begin_index 0 (elements_per_thread 1 2))
                (end_index 0 (elements_per_thread 1 2) 1)) small_world = Inr (w', Return ()))
   \<and> advance (mylib_vector_add (Some 201) None None None 1) small_world
     = Inr (small_world, Return ())
   \<and> advance (dot_loop None None None 1
        (begin_index 1 (elements_per_thread 1 2)) (end_index 1 (elements_per_thread 1 2) 1))
        small_world = Inr (small_world, Return ())
   \<and> {begin_index 1 (elements_per_thread 1 2)..<end_index 1 (elements_per_thread 1 2) 1}
     \<subseteq> {0..<1}"
proof -
  have tc0: "controls small_world 200 = Some \<lparr>tid = 0, tsize = 2, shared_context = Some 100\<rparr>"
    and tc1: "controls small_world 201 = Some \<lparr>tid = 1, tsize = 2, shared_context = Some 100\<rparr>"
    by (simp_all add: small_world_def example_world_def)
  have n: "(1::int) \<le> 2" and v: "(0::int) \<le> 1" and vn: "1 + 2 \<le> INT_MAX"
    and t0: "(0::int) \<le> 0" "(0::int) < 2" and t1: "(0::int) \<le> 1" "(1::int) < 2"
    by (simp_all add: INT_MAX_def)
  have bufs: "buffers small_world 10 = Some [1]" "buffers small_world 11 = Some [4]"
    "buffers small_world 12 = Some [0]" "buffers small_world 13 = Some [0, 0]"
    by (simp_all add: small_world_def)
  have len: "int (length [1::int]) = 1" "int (length [4::int]) = 1" "int (length [0::int]) = 1"
    "int (length [0::int, 0]) = 2" by simp_all
  have empty: "end_index 1 (elements_per_thread 1 2) 1 \<le> begin_index 1 (elements_per_thread 1 2)"
    by (simp add: elements_per_thread_def c_div_def begin_index_def end_index_def c_int_def)
  have first: "{begin_index 0 (elements_per_thread 1 2)..<end_index 0 (elements_per_thread 1 2) 1}
      = {0}"
    by (auto simp add: elements_per_thread_def c_div_def begin_index_def end_index_def c_int_def)
  note a = vector_accesses_in_bounds [OF tc0 n t0 v vn bufs len, of None None None None]
  note b = vector_accesses_in_bounds [OF tc1 n t1 v vn bufs len, of None None None None]
  from first a [THEN conjunct1] a [THEN conjunct2, THEN conjunct1]
    a [THEN conjunct2, THEN conjunct2, THEN conjunct1]
    b [THEN conjunct2, THEN conjunct2, THEN conjunct2, rule_format, OF empty]
    b [THEN conjunct1]
  show ?thesis by blast
qed

section \<open>Running a group\<close>

lemma map_upt_update: "k < n \<Longrightarrow> (map f [0..<n])[k := v] = map (f(k := v)) [0..<n]"
  by (rule nth_equalityI) (auto simp add: nth_list_update)

lemma run_phase_rule:
  assumes step: "\<And>k D. k < n \<Longrightarrow> k \<notin> D \<Longrightarrow> D \<subseteq> {0..<n} \<Longrightarrow>
                   advance (cur k) (G D) = Inr (G (insert k D), nxt k)"
    and idle: "\<And>k. k < n \<Longrightarrow> finished (nxt k) \<or> waiting (nxt k)"
  shows "D \<subseteq> {0..<n} \<Longrightarrow>
         run_phase s (G D, map (\<lambda>k. if k \<in> D then nxt k else cur k) [0..<n]) =
         Inr (G (D \<union> (set s \<inter> {0..<n})),
              map (\<lambda>k. if k \<in> D \<union> set s then nxt k else cur k) [0..<n])"
proof (induction s arbitrary: D)
  case Nil
  then show ?case by simp
next
  case (Cons k s)
  show ?case
  proof (cases "k < n")
    case False
    then have 1: "set (k # s) \<inter> {0..<n} = set s \<inter> {0..<n}" by auto
    have 2: "map (\<lambda>j. if j \<in> D \<union> set (k # s) then nxt j else cur j) [0..<n]
           = map (\<lambda>j. if j \<in> D \<union> set s then nxt j else cur j) [0..<n]"
      using False by (intro map_cong) auto
    show ?thesis using False Cons.IH [OF Cons.prems] unfolding 1 2 by simp
  next
    case kn: True
    show ?thesis
    proof (cases "k \<in> D")
      case True
      then have 1: "D \<union> (set (k # s) \<inter> {0..<n}) = D \<union> (set s \<inter> {0..<n})" by auto
      have 2: "map (\<lambda>j. if j \<in> D \<union> set (k # s) then nxt j else cur j) [0..<n]
           = map (\<lambda>j. if j \<in> D \<union> set s then nxt j else cur j) [0..<n]"
        using True by (intro map_cong) auto
      have "advance (nxt k) (G D) = Inr (G D, nxt k)"
        by (rule advance_idle [OF idle [OF kn]])
      moreover have "(map (\<lambda>k. if k \<in> D then nxt k else cur k) [0..<n])[k := nxt k]
           = map (\<lambda>k. if k \<in> D then nxt k else cur k) [0..<n]"
        using True kn by (simp add: map_upt_update fun_upd_idem)
      ultimately show ?thesis
        using kn True Cons.IH [OF Cons.prems] unfolding 1 2 by simp
    next
      case False
      have sub: "insert k D \<subseteq> {0..<n}" using kn Cons.prems by auto
      have 1: "D \<union> (set (k # s) \<inter> {0..<n}) = insert k D \<union> (set s \<inter> {0..<n})"
        using kn by auto
      have 2: "map (\<lambda>j. if j \<in> D \<union> set (k # s) then nxt j else cur j) [0..<n]
           = map (\<lambda>j. if j \<in> insert k D \<union> set s then nxt j else cur j) [0..<n]"
        by (intro map_cong) auto
      have 3: "(map (\<lambda>k. if k \<in> D then nxt k else cur k) [0..<n])[k := nxt k]
           = map (\<lambda>j. if j \<in> insert k D then nxt j else cur j) [0..<n]"
        using kn by (auto simp add: map_upt_update intro!: map_cong)
      show ?thesis
        using kn False step [OF kn False Cons.prems] Cons.IH [OF sub] unfolding 1 2
        by (simp add: 3)
    qed
  qed
qed

lemma run_phase_all:
  assumes step: "\<And>k D. k < n \<Longrightarrow> k \<notin> D \<Longrightarrow> D \<subseteq> {0..<n} \<Longrightarrow>
                   advance (cur k) (G D) = Inr (G (insert k D), nxt k)"
    and idle: "\<And>k. k < n \<Longrightarrow> finished (nxt k) \<or> waiting (nxt k)"
    and full: "{0..<n} \<subseteq> set s"
  shows "run_phase s (G {}, map cur [0..<n]) = Inr (G {0..<n}, map nxt [0..<n])"
proof -
  have "run_phase s (G {}, map (\<lambda>k. if k \<in> {} then nxt k else cur k) [0..<n]) =
         Inr (G ({} \<union> (set s \<inter> {0..<n})),
              map (\<lambda>k. if k \<in> {} \<union> set s then nxt k else cur k) [0..<n])"
    by (rule run_phase_rule [OF step idle]) simp_all
  moreover have "{} \<union> (set s \<inter> {0..<n}) = {0..<n}" using full by auto
  moreover have "map (\<lambda>k. if k \<in> {} \<union> set s then nxt k else cur k) [0..<n] = map nxt [0..<n]"
    using full by (intro map_cong) auto
  ultimately show ?thesis by simp
qed

lemma barrier_waiting:
  assumes "n \<noteq> 0"
  shows "barrier (map (\<lambda>k. Sync (q k)) [0..<n]) = Inr (map q [0..<n])"
proof -
  have "\<not> list_all finished (map (\<lambda>k. Sync (q k)) [0..<n])"
    using assms by (cases n) (simp_all add: list_all_iff)
  moreover have "list_all waiting (map (\<lambda>k. Sync (q k)) [0..<n])"
    by (simp add: list_all_iff)
  ultimately show ?thesis by (simp add: barrier_def comp_def)
qed

lemma spmd_phase_sync:
  assumes step: "\<And>k D. k < n \<Longrightarrow> k \<notin> D \<Longrightarrow> D \<subseteq> {0..<n} \<Longrightarrow>
                   advance (cur k) (G D) = Inr (G (insert k D), Sync (q k))"
    and full: "{0..<n} \<subseteq> set s" and n: "n \<noteq> 0"
  shows "spmd (s # ss) (G {}, map cur [0..<n]) = spmd ss (G {0..<n}, map q [0..<n])"
proof -
  have "run_phase s (G {}, map cur [0..<n]) = Inr (G {0..<n}, map (\<lambda>k. Sync (q k)) [0..<n])"
    using full by (intro run_phase_all step) simp_all
  then show ?thesis using barrier_waiting [OF n, of q] by simp
qed

lemma spmd_phase_last:
  assumes step: "\<And>k D. k < n \<Longrightarrow> k \<notin> D \<Longrightarrow> D \<subseteq> {0..<n} \<Longrightarrow>
                   advance (cur k) (G D) = Inr (G (insert k D), Return (r k))"
    and full: "{0..<n} \<subseteq> set s"
  shows "spmd [s] (G {}, map cur [0..<n]) = Inr (G {0..<n}, map (\<lambda>k. Return (r k)) [0..<n])"
proof -
  have "run_phase s (G {}, map cur [0..<n]) = Inr (G {0..<n}, map (\<lambda>k. Return (r k)) [0..<n])"
    using full by (intro run_phase_all step) simp_all
  then show ?thesis by (simp add: barrier_def list_all_iff)
qed

lemma example_group: "thread_group example_world [200, 201] (Some 100)"
  by (simp add: thread_group_def example_world_def All_less_Suc)

lemma example_factory:
  "factories example_world 100 = Some \<lparr>sync = Some 1, sync_data = Some 2, shared_data = None\<rparr>"
  by (simp add: example_world_def)

lemma example_buffers:
  "buffers example_world 10 = Some [1, 2, 3]" "buffers example_world 11 = Some [4, 5, 6]"
  "buffers example_world 12 = Some [0, 0, 0]" "buffers example_world 50 = None"
  by (simp_all add: example_world_def)

lemma example_full: "{0..<length [200::nat, 201]} \<subseteq> set [0::nat, 1]"
  by auto

lemma example_schedules_full:
  "\<forall>s\<in>set [[0, 1], [1, 0], [0, 1], [1, 0, 1], [0, 1], [1::nat, 0]].
      {0..<length [200::nat, 201]} \<subseteq> set s"
  by auto

lemma example_callback:
  "sync \<lparr>sync = Some 1, sync_data = Some 2, shared_data = None\<rparr> \<noteq> None"
  by simp

section \<open>Vector addition\<close>

lemma thread_range_subset:
  assumes "1 \<le> n" "0 \<le> vsize" "vsize + n \<le> INT_MAX" "int k < n"
  shows "thread_range vsize n k \<subseteq> {0..<vsize}"
  unfolding thread_range_def by (rule range_subset [OF assms(1,2,3) _ assms(4)]) simp

lemma thread_range_cover:
  assumes "0 < n" "0 \<le> vsize" "vsize + int n \<le> INT_MAX"
  shows "(\<Union>k\<in>{0..<n}. thread_range vsize (int n) k) = {0..<vsize}"
proof (intro equalityI subsetI)
  fix i assume "i \<in> (\<Union>k\<in>{0..<n}. thread_range vsize (int n) k)"
  then show "i \<in> {0..<vsize}"
    using thread_range_subset [of "int n" vsize] assms by fastforce
next
  fix i assume "i \<in> {0..<vsize}"
  then have "0 \<le> i" "i < vsize" by simp_all
  from range_owner [OF _ assms(3) this] assms obtain t where
    t: "0 \<le> t" "t < int n" "begin_index t (elements_per_thread vsize (int n)) \<le> i"
       "i < end_index t (elements_per_thread vsize (int n)) vsize" by auto
  then have "nat t \<in> {0..<n}" "i \<in> thread_range vsize (int n) (nat t)"
    by (simp_all add: thread_range_def)
  then show "i \<in> (\<Union>k\<in>{0..<n}. thread_range vsize (int n) k)" by blast
qed

lemma thread_range_disjoint:
  assumes "0 < n" "0 \<le> vsize" "vsize + int n \<le> INT_MAX" "j < n" "k < n" "j \<noteq> k"
  shows "thread_range vsize (int n) j \<inter> thread_range vsize (int n) k = {}"
proof -
  have n1: "1 \<le> int n" using assms by simp
  show ?thesis
  proof (cases "j < k")
    case True
    then have "int j < int k" "0 \<le> int j" "int k < int n" using assms by simp_all
    from end_le_begin [OF n1 assms(2,3) this(2,1,3)] show ?thesis
      by (auto simp add: thread_range_def)
  next
    case False
    then have "int k < int j" "0 \<le> int k" "int j < int n" using assms by simp_all
    from end_le_begin [OF n1 assms(2,3) this(2,1,3)] show ?thesis
      by (auto simp add: thread_range_def)
  qed
qed

lemma sum_on_all:
  assumes "length xs = length zs" "length ys = length zs"
  shows "sum_on {0..<int (length zs)} xs ys zs = map2 (+) xs ys"
  using assms by (intro nth_equalityI) (simp_all add: sum_on_def)

lemma nth_sum_on:
  "j < length zs \<Longrightarrow> sum_on S xs ys zs ! j = (if int j \<in> S then xs ! j + ys ! j else zs ! j)"
  by (simp add: sum_on_def)

text \<open>
  One thread, and then the group, on vectors whose size fits an \<open>int\<close> and with ranges
  that begin at a non-negative index, whether or not the index computation overflowed.
\<close>

lemma vector_add_thread:
  assumes tc: "controls w c = Some \<lparr>tid = int k, tsize = n, shared_context = ctx\<rparr>"
    and n: "1 \<le> n" and vi: "c_int vsize = vsize"
    and b0: "0 \<le> begin_index (int k) (elements_per_thread vsize n)"
    and bufs: "buffers w a = Some xs" "buffers w b = Some ys" "buffers w r = Some zs"
    and len: "int (length xs) = vsize" "int (length ys) = vsize" "int (length zs) = vsize"
    and ne: "r \<noteq> a" "r \<noteq> b"
  shows "advance (mylib_vector_add (Some c) (Some a) (Some b) (Some r) vsize) w =
         Inr (w\<lparr>buffers := (buffers w)(r \<mapsto> sum_on (thread_range vsize n k) xs ys zs)\<rparr>, Return ())"
proof -
  let ?e = "elements_per_thread vsize n"
  have e1: "end_index (int k) ?e vsize \<le> vsize" by (rule end_le_vsize)
  have ei: "c_int (end_index (int k) ?e vsize) = end_index (int k) ?e vsize"
    by (rule end_in_int [OF vi])
  have "advance (pbind (add_loop (Some a) (Some b) (Some r) (begin_index (int k) ?e)
            (end_index (int k) ?e vsize)) Return) w =
         advance (Return ()) (w\<lparr>buffers := (buffers w)(r \<mapsto>
            sum_on {begin_index (int k) ?e..<end_index (int k) ?e vsize} xs ys zs)\<rparr>)"
    using bufs ne b0 e1 len ei by (intro add_loop_run) simp_all
  then show ?thesis
    using tc n
    by (simp add: mylib_vector_add_def advance_load_control pbind_Return thread_range_def Let_def)
qed

lemma spmd_add:
  fixes w :: "'a::plus world"
  assumes grp: "thread_group w tcs ctx" and n: "tcs \<noteq> []"
    and vi: "c_int vsize = vsize"
    and safe: "\<forall>k<length tcs.
        0 \<le> begin_index (int k) (elements_per_thread vsize (int (length tcs)))"
    and bufs: "buffers w a = Some xs" "buffers w b = Some ys" "buffers w r = Some zs"
    and len: "int (length xs) = vsize" "int (length ys) = vsize" "int (length zs) = vsize"
    and ne: "r \<noteq> a" "r \<noteq> b"
    and full: "{0..<length tcs} \<subseteq> set s"
  shows "spmd [s] (w, map (\<lambda>c. mylib_vector_add (Some c) (Some a) (Some b) (Some r) vsize) tcs)
         = Inr (w\<lparr>buffers := (buffers w)(r \<mapsto>
                   sum_on (\<Union>k\<in>{0..<length tcs}. thread_range vsize (int (length tcs)) k)
                     xs ys zs)\<rparr>,
                replicate (length tcs) (Return ()))"
proof -
  define n where "n = length tcs"
  define G where "G D = w\<lparr>buffers := (buffers w)(r \<mapsto>
       sum_on (\<Union>k\<in>D. thread_range vsize (int n) k) xs ys zs)\<rparr>" for D
  define cur :: "nat \<Rightarrow> ('a world, unit) prog"
    where "cur k = mylib_vector_add (Some (tcs ! k)) (Some a) (Some b) (Some r) vsize" for k
  define nxt :: "nat \<Rightarrow> ('a world, unit) prog" where "nxt k = Return ()" for k
  have n0: "0 < n" using n by (simp add: n_def)
  have step: "advance (cur k) (G D) = Inr (G (insert k D), nxt k)"
    if "k < n" "k \<notin> D" "D \<subseteq> {0..<n}" for k D
  proof -
    have tc: "controls (G D) (tcs ! k) = Some \<lparr>tid = int k, tsize = int n, shared_context = ctx\<rparr>"
      using grp that by (simp add: thread_group_def G_def n_def)
    have b0: "0 \<le> begin_index (int k) (elements_per_thread vsize (int n))"
      using safe that by (simp add: n_def)
    have "advance (cur k) (G D) =
         Inr ((G D)\<lparr>buffers := (buffers (G D))(r \<mapsto> sum_on (thread_range vsize (int n) k) xs ys
              (sum_on (\<Union>k\<in>D. thread_range vsize (int n) k) xs ys zs))\<rparr>, Return ())"
      unfolding cur_def using n0 bufs len ne
      by (intro vector_add_thread [OF tc _ vi b0]) (simp_all add: G_def)
    then show ?thesis by (simp add: G_def nxt_def sum_on_union)
  qed
  have "run_phase s (G {}, map cur [0..<n]) = Inr (G {0..<n}, map nxt [0..<n])"
    using full by (intro run_phase_all step) (simp_all add: nxt_def n_def)
  moreover have "G {} = w" using bufs by (simp add: G_def world_buffers_same)
  moreover have "map cur [0..<n] =
      map (\<lambda>c. mylib_vector_add (Some c) (Some a) (Some b) (Some r) vsize) tcs"
    unfolding cur_def n_def by (rule nth_equalityI) simp_all
  moreover have "map nxt [0..<n] = replicate n (Return ())"
    by (rule nth_equalityI) (simp_all add: nxt_def)
  ultimately show ?thesis by (simp add: barrier_def list_all_iff n_def G_def)
qed

lemma long_group: "thread_group long_world [200, 201] (Some 100)"
  by (simp add: thread_group_def long_world_def example_world_def All_less_Suc)

lemma long_buffers:
  "buffers long_world 10 = Some long_vector" "buffers long_world 11 = Some long_vector"
  "buffers long_world 12 = Some long_output" "buffers long_world 13 = Some [0]"
  "buffers long_world 50 = None"
  by (simp_all add: long_world_def)

lemma long_lengths:
  "int (length long_vector) = 2147483647" "int (length long_output) = 2147483647"
  by (simp_all add: long_vector_def long_output_def)

lemma long_ranges:
  "thread_range 2147483647 2 0 = {0..<1073741824}"
  "thread_range 2147483647 2 (Suc 0) = {}"
  by (simp_all add: thread_range_def elements_per_thread_def c_div_def begin_index_def
      end_index_def c_int_def)

lemma long_safe:
  "\<forall>k<length [200::nat, 201].
      0 \<le> begin_index (int k) (elements_per_thread 2147483647 (int (length [200::nat, 201])))"
  by (simp add: All_less_Suc elements_per_thread_def c_div_def begin_index_def c_int_def)

text \<open>
  Claim C3 says that the output holds the element sums after the threads have run, for
  every \<open>tsize \<ge> 1\<close> and \<open>vsize \<ge> 0\<close>. For two threads and vectors of \<open>INT_MAX\<close> elements,
  all of them 1, thread 0 adds the elements below \<open>2 ^ 30\<close>. For thread 1
  \<open>(tid + 1) * elements_per_thread\<close> overflows, its \<open>end_index\<close> is \<open>INT_MIN\<close> and it adds
  nothing: the element \<open>2 ^ 30\<close> of the output is still 0, not \<open>1 + 1\<close>.
\<close>

theorem vector_add_counterexample:
  "int (length long_vector) = 2147483647 \<and> int (length long_output) = 2147483647
   \<and> long_vector ! 1073741824 + long_vector ! 1073741824 = 2
   \<and> map_option (\<lambda>w'. map_option (\<lambda>zs. zs ! 1073741824) (buffers w' 12))
       (final_world (spmd [[0, 1]]
          (long_world,
           map (\<lambda>c. mylib_vector_add (Some c) (Some 10) (Some 11) (Some 12) 2147483647)
             [200, 201])))
     = Some (Some 0)"
proof -
  have n: "[200::nat, 201] \<noteq> []" by simp
  have vi: "c_int 2147483647 = 2147483647" by (simp add: c_int_def)
  have ne: "(12::nat) \<noteq> 10" "(12::nat) \<noteq> 11" by simp_all
  have full: "{0..<length [200::nat, 201]} \<subseteq> set [0::nat, 1]" by auto
  have all: "(\<Union>k\<in>{0..<length [200::nat, 201]}.
        thread_range 2147483647 (int (length [200::nat, 201])) k) = {0..<1073741824}"
  proof -
    have "{0..<length [200::nat, 201]} = {0, 1}" by auto
    then show ?thesis by (simp add: long_ranges)
  qed
  have at: "(1073741824::nat) < length long_output" by (simp add: long_output_def)
  have out: "sum_on {0..<1073741824} long_vector long_vector long_output ! 1073741824 = 0"
    unfolding nth_sum_on [OF at] by (simp add: long_output_def)
  have ones: "long_vector ! 1073741824 + long_vector ! 1073741824 = 2"
    by (simp add: long_vector_def)
  have "spmd [[0, 1]]
          (long_world,
           map (\<lambda>c. mylib_vector_add (Some c) (Some 10) (Some 11) (Some 12) 2147483647)
             [200, 201])
      = Inr (long_world\<lparr>buffers := (buffers long_world)(12 \<mapsto>
               sum_on {0..<1073741824} long_vector long_vector long_output)\<rparr>,
             replicate (length [200::nat, 201]) (Return ()))"
    using spmd_add [OF long_group n vi long_safe long_buffers(1,2,3) long_lengths(1,1,2) ne full]
    unfolding all .
  then have "map_option (\<lambda>w'. map_option (\<lambda>zs. zs ! 1073741824) (buffers w' 12))
       (final_world (spmd [[0, 1]]
          (long_world,
           map (\<lambda>c. mylib_vector_add (Some c) (Some 10) (Some 11) (Some 12) 2147483647)
             [200, 201])))
     = Some (Some 0)"
    unfolding final_world_def using out by simp
  then show ?thesis using long_lengths ones by (intro conjI)
qed

text \<open>
  Claim C3, amended. When every thread of a group of \<open>length tcs \<ge> 1\<close> threads has
  executed \<open>mylib_vector_add\<close> once, in any order, on input vectors \<open>xs\<close> and \<open>ys\<close> of
  \<open>vsize\<close> elements with \<open>vsize + length tcs \<le> INT_MAX\<close> and an output of the same
  length that is none of the inputs, all threads have returned and the output holds
  \<open>xs ! i + ys ! i\<close> at every index \<open>i < vsize\<close>; nothing else has changed.
\<close>

theorem vector_add_result:
  fixes w :: "'a::plus world"
  assumes grp: "thread_group w tcs ctx" and n: "tcs \<noteq> []"
    and vn: "vsize + int (length tcs) \<le> INT_MAX"
    and bufs: "buffers w a = Some xs" "buffers w b = Some ys" "buffers w r = Some zs"
    and len: "int (length xs) = vsize" "int (length ys) = vsize" "int (length zs) = vsize"
    and ne: "r \<noteq> a" "r \<noteq> b"
    and full: "{0..<length tcs} \<subseteq> set s"
  shows "spmd [s] (w, map (\<lambda>c. mylib_vector_add (Some c) (Some a) (Some b) (Some r) vsize) tcs)
         = Inr (w\<lparr>buffers := (buffers w)(r \<mapsto> map2 (+) xs ys)\<rparr>,
                replicate (length tcs) (Return ()))"
proof -
  have n0: "0 < length tcs" using n by simp
  have n1: "1 \<le> int (length tcs)" using n by (cases tcs) simp_all
  have v0: "0 \<le> vsize" using len by auto
  have vi: "c_int vsize = vsize" using v0 vn by (intro c_int_nat) simp_all
  have safe: "\<forall>k<length tcs.
      0 \<le> begin_index (int k) (elements_per_thread vsize (int (length tcs)))"
    using begin_nonneg [OF n1 v0 vn] by simp
  have "sum_on (\<Union>k\<in>{0..<length tcs}. thread_range vsize (int (length tcs)) k) xs ys zs
      = map2 (+) xs ys"
    using thread_range_cover [OF n0 v0 vn] len sum_on_all [of xs zs ys] by simp
  then show ?thesis
    using spmd_add [OF grp n vi safe bufs len ne full] by simp
qed

theorem vector_add_result_witness:
  "map_option (\<lambda>w'. buffers w' 12)
     (final_world (spmd [[1, 0]]
        (example_world,
         map (\<lambda>c. mylib_vector_add (Some c) (Some 10) (Some 11) (Some 12) 3) [200, 201])))
   = Some (Some [5, 7, 9])"
proof -
  have n: "[200::nat, 201] \<noteq> []" by simp
  have vn: "3 + int (length [200::nat, 201]) \<le> INT_MAX" by (simp add: INT_MAX_def)
  have len: "int (length [1::int, 2, 3]) = 3" "int (length [4::int, 5, 6]) = 3"
    "int (length [0::int, 0, 0]) = 3" by simp_all
  have ne: "(12::nat) \<noteq> 10" "(12::nat) \<noteq> 11" by simp_all
  have full: "{0..<length [200::nat, 201]} \<subseteq> set [1::nat, 0]" by auto
  from vector_add_result [OF example_group n vn example_buffers(1,2,3) len ne full]
  show ?thesis by (simp add: final_world_def)
qed

section \<open>The shared buffer\<close>

lemma with_calls_with_calls:
  "with_calls c2 (with_calls c1 w) = with_calls (\<lambda>t. c1 t @ c2 t) w"
  by (simp add: with_calls_def)

lemma with_calls_none [simp]: "with_calls (on_threads {} cs) w = w"
  by (simp add: with_calls_def on_threads_def)

lemma with_calls_fields [simp]:
  "factories (with_calls cs w) = factories w"
  "controls (with_calls cs w) = controls w"
  "buffers (with_calls cs w) = buffers w"
  "calls (with_calls cs w) t = calls w t @ cs t"
  by (simp_all add: with_calls_def)

lemma with_calls_buffers:
  "(with_calls cs w)\<lparr>buffers := bs\<rparr> = with_calls cs (w\<lparr>buffers := bs\<rparr>)"
  by (simp add: with_calls_def)

lemma thread_group_with_calls [simp]:
  "thread_group (with_calls cs w) tcs ctx = thread_group w tcs ctx"
  by (simp add: thread_group_def)

lemma thread_group_buffers [simp]:
  "thread_group (w\<lparr>buffers := bs\<rparr>) tcs ctx = thread_group w tcs ctx"
  by (simp add: thread_group_def)

lemma on_threads_insert:
  "k \<notin> D \<Longrightarrow> (\<lambda>t. old t @ on_threads D cs t)(int k := (old (int k) @ on_threads D cs (int k)) @ cs k)
     = (\<lambda>t. old t @ on_threads (insert k D) cs t)"
  by (auto simp add: fun_eq_iff on_threads_def)

lemma on_threads_append: "on_threads D c1 t @ on_threads D c2 t = on_threads D (\<lambda>k. c1 k @ c2 k) t"
  by (simp add: on_threads_def)

lemma sync_call_shared_data [simp]: "sync_call (F\<lparr>shared_data := v\<rparr>) n k = sync_call F n k"
  by (simp add: sync_call_def)

lemma sync_phase_step:
  fixes w :: "'a world"
  assumes grp: "thread_group w tcs (Some f)" and fac: "factories w f = Some F"
    and cb: "sync F \<noteq> None" and k: "k < length tcs" "k \<notin> D"
  shows "advance (pbind (mylib_ThreadControl_sync (Some (tcs ! k))) K)
           (with_calls (on_threads D (\<lambda>k. [sync_call F (length tcs) k])) w)
         = Inr (with_calls (on_threads (insert k D) (\<lambda>k. [sync_call F (length tcs) k])) w,
                Sync (K ()))"
proof -
  have c: "controls w (tcs ! k) = Some \<lparr>tid = int k, tsize = int (length tcs), shared_context = Some f\<rparr>"
    using grp k by (simp add: thread_group_def)
  have "(\<lambda>t. calls w t @ on_threads D (\<lambda>k. [sync_call F (length tcs) k]) t)
           (int k := (calls w (int k) @ on_threads D (\<lambda>k. [sync_call F (length tcs) k]) (int k))
               @ [sync_call F (length tcs) k])
      = (\<lambda>t. calls w t @ on_threads (insert k D) (\<lambda>k. [sync_call F (length tcs) k]) t)"
    using k by (auto simp add: fun_eq_iff on_threads_def)
  then show ?thesis
    using c fac cb by (auto simp add: advance_sync with_calls_def sync_call_def)
qed

text \<open>A phase of threads whose code begins, in the worlds of the phase, with the barrier call.\<close>

lemma spmd_sync_phase:
  fixes w :: "'a world"
  assumes grp: "thread_group w tcs (Some f)" and fac: "factories w f = Some F"
    and cb: "sync F \<noteq> None" and n: "tcs \<noteq> []" and full: "{0..<length tcs} \<subseteq> set s"
    and cur: "\<And>k w'. k < length tcs \<Longrightarrow> controls w' = controls w \<Longrightarrow>
                 factories w' = factories w \<Longrightarrow> buffers w' = buffers w \<Longrightarrow>
                 advance (cur k) w'
                 = advance (pbind (mylib_ThreadControl_sync (Some (tcs ! k))) (K k)) w'"
  shows "spmd (s # ss) (w, map cur [0..<length tcs])
       = spmd ss (with_calls (on_threads {0..<length tcs} (\<lambda>k. [sync_call F (length tcs) k])) w,
                  map (\<lambda>k. K k ()) [0..<length tcs])"
proof -
  define G where "G D = with_calls (on_threads D (\<lambda>k. [sync_call F (length tcs) k])) w" for D
  have "spmd (s # ss) (G {}, map cur [0..<length tcs])
       = spmd ss (G {0..<length tcs}, map (\<lambda>k. K k ()) [0..<length tcs])"
  proof (rule spmd_phase_sync [OF _ full])
    show "length tcs \<noteq> 0" using n by simp
  next
    fix k D assume k: "k < length tcs" "k \<notin> D"
    have "advance (cur k) (G D)
        = advance (pbind (mylib_ThreadControl_sync (Some (tcs ! k))) (K k)) (G D)"
      by (rule cur [OF k(1)]) (simp_all add: G_def)
    also have "\<dots> = Inr (G (insert k D), Sync (K k ()))"
      unfolding G_def by (intro sync_phase_step [OF grp fac cb k])
    finally show "advance (cur k) (G D) = Inr (G (insert k D), Sync (K k ()))" .
  qed
  then show ?thesis by (simp add: G_def)
qed

subsection \<open>Allocation\<close>

lemma malloc_parts:
  "mylib_ThreadControl_malloc m tcontrol num_bytes =
     pseq (mylib_ThreadControl_sync tcontrol)
    (pseq (malloc_publish m tcontrol num_bytes)
    (pseq (mylib_ThreadControl_sync tcontrol) (malloc_read tcontrol)))"
  by (simp add: mylib_ThreadControl_malloc_def malloc_publish_def malloc_read_def)

lemma publish_fields [simp]:
  "controls (publish m f F nb w) = controls w"
  "calls (publish m f F nb w) = calls w"
  "factories (publish m f F nb w) = (factories w)(f \<mapsto> F\<lparr>shared_data := map_option fst m\<rparr>)"
  by (simp_all add: publish_def)

lemma publish_with_calls: "publish m f F nb (with_calls cs w) = with_calls cs (publish m f F nb w)"
  by (cases m) (auto simp add: publish_def with_calls_def)

lemma thread_group_publish [simp]:
  "thread_group (publish m f F nb w) tcs ctx = thread_group w tcs ctx"
  by (simp add: thread_group_def)

lemma publish_phase_step:
  fixes w :: "'a world"
  assumes grp: "thread_group w tcs (Some f)" and fac: "factories w f = Some F"
    and cb: "sync F \<noteq> None" and k: "k < length tcs" "k \<notin> D"
  shows "advance (pbind (malloc_publish m (Some (tcs ! k)) nb)
                   (\<lambda>_. pbind (mylib_ThreadControl_sync (Some (tcs ! k))) K))
           (with_calls (on_threads D (\<lambda>k. (if k = 0 then [Call_malloc nb] else []) @ [sync_call F (length tcs) k]))
              (if 0 \<in> D then publish m f F nb w else w))
         = Inr (with_calls (on_threads (insert k D) (\<lambda>k. (if k = 0 then [Call_malloc nb] else []) @ [sync_call F (length tcs) k]))
              (if 0 \<in> insert k D then publish m f F nb w else w),
                Sync (K ()))"
proof -
  let ?cs = "\<lambda>k. (if k = 0 then [Call_malloc nb] else []) @ [sync_call F (length tcs) k]"
  have c: "controls w (tcs ! k) = Some \<lparr>tid = int k, tsize = int (length tcs), shared_context = Some f\<rparr>"
    using grp k by (simp add: thread_group_def)
  show ?thesis
  proof (cases "k = 0")
    case True
    then have D0: "0 \<notin> D" using k by simp
    have upd: "(\<lambda>t. calls w t @ on_threads D ?cs t)
             (0 := (calls w 0 @ on_threads D ?cs 0) @ [Call_malloc nb, sync_call F (length tcs) 0])
        = (\<lambda>t. calls w t @ on_threads (insert 0 D) ?cs t)"
      using on_threads_insert [of 0 D "calls w" ?cs] D0 by simp
    show ?thesis
      using True D0 c fac cb upd
      by (cases m)
         (auto simp add: malloc_publish_def advance_load_control advance_c_malloc pbind_assoc
            advance_store_shared_data advance_sync with_calls_def publish_def sync_call_def)
  next
    case False
    have upd: "(\<lambda>t. calls w t @ on_threads D ?cs t)
             (int k := (calls w (int k) @ on_threads D ?cs (int k)) @ [sync_call F (length tcs) k])
        = (\<lambda>t. calls w t @ on_threads (insert k D) ?cs t)"
      using on_threads_insert [of k D "calls w" ?cs] k False by simp
    show ?thesis
      using False c fac cb upd
      by (auto simp add: malloc_publish_def advance_load_control advance_sync with_calls_def
            sync_call_def pbind_assoc)
  qed
qed

lemma spmd_publish:
  fixes w :: "'a world"
  assumes grp: "thread_group w tcs (Some f)" and fac: "factories w f = Some F"
    and cb: "sync F \<noteq> None" and n: "tcs \<noteq> []" and full: "{0..<length tcs} \<subseteq> set s"
  shows "spmd (s # ss)
           (w, map (\<lambda>k. pbind (malloc_publish m (Some (tcs ! k)) nb)
                   (\<lambda>_. pbind (mylib_ThreadControl_sync (Some (tcs ! k))) (K k))) [0..<length tcs])
       = spmd ss (with_calls (on_threads {0..<length tcs}
                     (\<lambda>k. (if k = 0 then [Call_malloc nb] else []) @ [sync_call F (length tcs) k]))
                    (publish m f F nb w),
                  map (\<lambda>k. K k ()) [0..<length tcs])"
proof -
  define G where "G D = with_calls (on_threads D
      (\<lambda>k. (if k = 0 then [Call_malloc nb] else []) @ [sync_call F (length tcs) k]))
      (if 0 \<in> D then publish m f F nb w else w)" for D
  have "spmd (s # ss)
           (G {}, map (\<lambda>k. pbind (malloc_publish m (Some (tcs ! k)) nb)
                   (\<lambda>_. pbind (mylib_ThreadControl_sync (Some (tcs ! k))) (K k))) [0..<length tcs])
       = spmd ss (G {0..<length tcs}, map (\<lambda>k. K k ()) [0..<length tcs])"
  proof (rule spmd_phase_sync [OF _ full])
    show "length tcs \<noteq> 0" using n by simp
  next
    fix k D assume "k < length tcs" "k \<notin> D"
    then show "advance (pbind (malloc_publish m (Some (tcs ! k)) nb)
                   (\<lambda>_. pbind (mylib_ThreadControl_sync (Some (tcs ! k))) (K k))) (G D)
        = Inr (G (insert k D), Sync (K k ()))"
      unfolding G_def by (intro publish_phase_step [OF grp fac cb])
  qed
  moreover have "0 \<in> {0..<length tcs}" using n by simp
  ultimately show ?thesis by (simp add: G_def)
qed

lemma advance_malloc_read:
  assumes "controls w c = Some tc" "shared_context tc = Some f" "factories w f = Some F"
  shows "advance (pbind (malloc_read (Some c)) K) w = advance (K (shared_data F)) w"
  using assms by (simp add: malloc_read_def pbind_assoc advance_load_control advance_load_factory)

lemma spmd_malloc_from:
  fixes w :: "'a world"
  assumes grp: "thread_group w tcs (Some f)" and fac: "factories w f = Some F"
    and cb: "sync F \<noteq> None" and n: "tcs \<noteq> []"
    and full: "{0..<length tcs} \<subseteq> set s1" "{0..<length tcs} \<subseteq> set s2"
    and cur: "\<And>k w'. k < length tcs \<Longrightarrow> controls w' = controls w \<Longrightarrow>
                 factories w' = factories w \<Longrightarrow> buffers w' = buffers w \<Longrightarrow>
                 advance (cur k) w'
                 = advance (pbind (mylib_ThreadControl_malloc m (Some (tcs ! k)) nb) (K k)) w'"
  shows "spmd (s1 # s2 # ss) (w, map cur [0..<length tcs])
       = spmd ss (with_calls (on_threads {0..<length tcs} (malloc_calls F (length tcs) nb))
                    (publish m f F nb w),
                  map (\<lambda>k. pbind (malloc_read (Some (tcs ! k))) (K k)) [0..<length tcs])"
proof -
  let ?n = "length tcs"
  let ?w1 = "with_calls (on_threads {0..<?n} (\<lambda>k. [sync_call F ?n k])) w"
  have "spmd (s1 # s2 # ss) (w, map cur [0..<?n])
      = spmd (s2 # ss) (?w1, map (\<lambda>k. (\<lambda>_. pbind (malloc_publish m (Some (tcs ! k)) nb)
                   (\<lambda>_. pbind (mylib_ThreadControl_sync (Some (tcs ! k)))
                      (\<lambda>_. pbind (malloc_read (Some (tcs ! k))) (K k)))) ()) [0..<?n])"
  proof (rule spmd_sync_phase [OF grp fac cb n full(1)])
    fix k and w' :: "'a world"
    assume "k < ?n" "controls w' = controls w" "factories w' = factories w"
      "buffers w' = buffers w"
    from cur [OF this]
    show "advance (cur k) w' = advance (pbind (mylib_ThreadControl_sync (Some (tcs ! k)))
         (\<lambda>_. pbind (malloc_publish m (Some (tcs ! k)) nb)
                   (\<lambda>_. pbind (mylib_ThreadControl_sync (Some (tcs ! k)))
                      (\<lambda>_. pbind (malloc_read (Some (tcs ! k))) (K k))))) w'"
      by (simp add: malloc_parts pseq_def pbind_assoc)
  qed
  then have 1: "spmd (s1 # s2 # ss) (w, map cur [0..<?n])
      = spmd (s2 # ss) (?w1, map (\<lambda>k. pbind (malloc_publish m (Some (tcs ! k)) nb)
                   (\<lambda>_. pbind (mylib_ThreadControl_sync (Some (tcs ! k)))
                      (\<lambda>_. pbind (malloc_read (Some (tcs ! k))) (K k)))) [0..<?n])"
    by simp
  have grp1: "thread_group ?w1 tcs (Some f)" using grp by simp
  have fac1: "factories ?w1 f = Some F" using fac by simp
  have 2: "spmd (s2 # ss) (?w1, map (\<lambda>k. pbind (malloc_publish m (Some (tcs ! k)) nb)
                   (\<lambda>_. pbind (mylib_ThreadControl_sync (Some (tcs ! k)))
                      (\<lambda>_. pbind (malloc_read (Some (tcs ! k))) (K k)))) [0..<?n])
      = spmd ss (with_calls (on_threads {0..<?n}
                     (\<lambda>k. (if k = 0 then [Call_malloc nb] else []) @ [sync_call F ?n k]))
                    (publish m f F nb ?w1),
                  map (\<lambda>k. pbind (malloc_read (Some (tcs ! k))) (K k)) [0..<?n])"
    by (rule spmd_publish [OF grp1 fac1 cb n full(2)])
  have 3: "with_calls (on_threads {0..<?n}
                     (\<lambda>k. (if k = 0 then [Call_malloc nb] else []) @ [sync_call F ?n k]))
                    (publish m f F nb ?w1)
      = with_calls (on_threads {0..<?n} (malloc_calls F ?n nb)) (publish m f F nb w)"
  proof -
    have "malloc_calls F ?n nb = (\<lambda>k. [sync_call F ?n k] @
        (if k = 0 then [Call_malloc nb] else []) @ [sync_call F ?n k])"
      by (simp add: fun_eq_iff malloc_calls_def)
    then show ?thesis
      by (simp add: publish_with_calls with_calls_with_calls on_threads_append)
  qed
  show ?thesis using 1 2 3 by simp
qed

lemma spmd_malloc:
  fixes w :: "'a world"
  assumes grp: "thread_group w tcs (Some f)" and fac: "factories w f = Some F"
    and cb: "sync F \<noteq> None" and n: "tcs \<noteq> []"
    and full: "{0..<length tcs} \<subseteq> set s1" "{0..<length tcs} \<subseteq> set s2"
  shows "spmd (s1 # s2 # ss)
           (w, map (\<lambda>k. pbind (mylib_ThreadControl_malloc m (Some (tcs ! k)) nb) (K k))
                 [0..<length tcs])
       = spmd ss (with_calls (on_threads {0..<length tcs} (malloc_calls F (length tcs) nb))
                    (publish m f F nb w),
                  map (\<lambda>k. pbind (malloc_read (Some (tcs ! k))) (K k)) [0..<length tcs])"
  by (rule spmd_malloc_from [OF grp fac cb n full]) (rule refl)

text \<open>
  Claim C4. When every thread of a group executes \<open>mylib_ThreadControl_malloc\<close> with
  \<open>num_bytes\<close>, whatever \<open>malloc\<close> answers: every thread calls the barrier, then only
  the thread with index 0 calls \<open>malloc\<close> with \<open>num_bytes\<close> and stores the answer in
  \<open>shared_data\<close> of the factory, then every thread calls the barrier again, then every
  thread reads \<open>shared_data\<close>; all threads return the same address, the one
  \<open>malloc\<close> answered. The calls of thread \<open>k\<close> are exactly \<open>malloc_calls\<close>, and the
  memory differs from the one before by \<open>publish\<close> alone.
\<close>

theorem shared_malloc_protocol:
  fixes w :: "'a world"
  assumes grp: "thread_group w tcs (Some f)" and fac: "factories w f = Some F"
    and cb: "sync F \<noteq> None" and n: "tcs \<noteq> []"
    and full: "{0..<length tcs} \<subseteq> set s1" "{0..<length tcs} \<subseteq> set s2"
      "{0..<length tcs} \<subseteq> set s3"
  shows "spmd [s1, s2, s3]
           (w, map (\<lambda>c. mylib_ThreadControl_malloc m (Some c) num_bytes) tcs)
       = Inr (with_calls (on_threads {0..<length tcs} (malloc_calls F (length tcs) num_bytes))
                (publish m f F num_bytes w),
              replicate (length tcs) (Return (map_option fst m)))"
proof -
  let ?n = "length tcs"
  let ?w2 = "with_calls (on_threads {0..<?n} (malloc_calls F ?n num_bytes)) (publish m f F num_bytes w)"
  have ps: "map (\<lambda>c. mylib_ThreadControl_malloc m (Some c) num_bytes) tcs
      = map (\<lambda>k. pbind (mylib_ThreadControl_malloc m (Some (tcs ! k)) num_bytes) Return) [0..<?n]"
    by (rule nth_equalityI) (simp_all add: pbind_Return)
  have "spmd [s3] (?w2, map (\<lambda>k. pbind (malloc_read (Some (tcs ! k))) Return) [0..<?n])
      = Inr (?w2, map (\<lambda>k. Return (map_option fst m)) [0..<?n])"
  proof (rule spmd_phase_last [where G = "\<lambda>D. ?w2", OF _ full(3)])
    fix k assume k: "k < ?n"
    have "controls ?w2 (tcs ! k) = Some \<lparr>tid = int k, tsize = int ?n, shared_context = Some f\<rparr>"
      using grp k by (simp add: thread_group_def)
    from advance_malloc_read [OF this, of f "F\<lparr>shared_data := map_option fst m\<rparr>" Return]
    show "advance (pbind (malloc_read (Some (tcs ! k))) Return) ?w2
        = Inr (?w2, Return (map_option fst m))" by simp
  qed
  moreover have "map (\<lambda>k. Return (map_option fst m)) [0..<?n]
      = replicate ?n (Return (map_option fst m) :: ('a world, pointer) prog)"
    by (rule nth_equalityI) simp_all
  ultimately show ?thesis
    using spmd_malloc [OF grp fac cb n full(1,2), of "[s3]" m num_bytes "\<lambda>k. Return"]
    unfolding ps by simp
qed

theorem shared_malloc_protocol_witness:
  "map_option (\<lambda>w'. (map_option shared_data (factories w' 100), buffers w' 50,
                     calls w' 0, calls w' 1))
     (final_world (spmd [[0, 1], [1, 0], [0, 1]]
        (example_world, map (\<lambda>c. mylib_ThreadControl_malloc example_block (Some c) 16) [200, 201])))
   = Some (Some (Some 50), Some [0, 0],
           [Call_sync (Some 1) 0 2 (Some 2), Call_malloc 16, Call_sync (Some 1) 0 2 (Some 2)],
           [Call_sync (Some 1) 1 2 (Some 2), Call_sync (Some 1) 1 2 (Some 2)])"
proof -
  have n: "[200::nat, 201] \<noteq> []" by simp
  have full: "{0..<length [200::nat, 201]} \<subseteq> set [1::nat, 0]" by auto
  from shared_malloc_protocol [OF example_group example_factory example_callback n
      example_full full example_full, of example_block 16]
  show ?thesis
    by (simp add: final_world_def example_block_def publish_def on_threads_def malloc_calls_def
        sync_call_def c_div_def sizeof_double_def example_world_def numeral_2_eq_2)
qed

subsection \<open>Release\<close>

lemma free_parts:
  "mylib_ThreadControl_free tcontrol ptr =
     pseq (mylib_ThreadControl_sync tcontrol) (free_release tcontrol ptr)"
  by (simp add: mylib_ThreadControl_free_def free_release_def)

lemma release_fields [simp]:
  "controls (release ptr w) = controls w"
  "calls (release ptr w) = calls w"
  "factories (release ptr w) = factories w"
  by (simp_all add: release_def split: option.splits)

lemma release_with_calls: "release ptr (with_calls cs w) = with_calls cs (release ptr w)"
  by (simp add: release_def with_calls_def split: option.splits)

lemma release_phase_step:
  fixes w :: "'a world"
  assumes grp: "thread_group w tcs ctx" and k: "k < length tcs" "k \<notin> D"
    and live: "\<forall>a. ptr = Some a \<longrightarrow> a \<in> dom (buffers w)"
  shows "advance (free_release (Some (tcs ! k)) ptr)
           (with_calls (on_threads D (\<lambda>k. if k = 0 then [Call_free ptr] else []))
              (if 0 \<in> D then release ptr w else w))
         = Inr (with_calls (on_threads (insert k D) (\<lambda>k. if k = 0 then [Call_free ptr] else []))
              (if 0 \<in> insert k D then release ptr w else w), Return ())"
proof -
  let ?cs = "\<lambda>k. if k = 0 then [Call_free ptr] else []"
  have c: "controls w (tcs ! k) = Some \<lparr>tid = int k, tsize = int (length tcs), shared_context = ctx\<rparr>"
    using grp k by (simp add: thread_group_def)
  show ?thesis
  proof (cases "k = 0")
    case True
    then have D0: "0 \<notin> D" using k by simp
    have upd: "(\<lambda>t. calls w t @ on_threads D ?cs t)
             (0 := (calls w 0 @ on_threads D ?cs 0) @ [Call_free ptr])
        = (\<lambda>t. calls w t @ on_threads (insert 0 D) ?cs t)"
      using on_threads_insert [of 0 D "calls w" ?cs] D0 by simp
    have "advance (pbind (free_release (Some (tcs ! k)) ptr) Return)
           (with_calls (on_threads D ?cs) (if 0 \<in> D then release ptr w else w))
         = Inr (with_calls (on_threads (insert k D) ?cs)
              (if 0 \<in> insert k D then release ptr w else w), Return ())"
      using True D0 c upd live
      by (cases ptr)
         (auto simp add: free_release_def advance_load_control advance_c_free pbind_assoc
            with_calls_def release_def)
    then show ?thesis by (simp add: pbind_Return)
  next
    case False
    have same: "on_threads (insert k D) ?cs = on_threads D ?cs"
      using False by (auto simp add: fun_eq_iff on_threads_def)
    have "advance (pbind (free_release (Some (tcs ! k)) ptr) Return)
           (with_calls (on_threads D ?cs) (if 0 \<in> D then release ptr w else w))
         = Inr (with_calls (on_threads (insert k D) ?cs)
              (if 0 \<in> insert k D then release ptr w else w), Return ())"
      unfolding same using False c
      by (auto simp add: free_release_def advance_load_control pbind_assoc)
    then show ?thesis by (simp add: pbind_Return)
  qed
qed

lemma spmd_release:
  fixes w :: "'a world"
  assumes grp: "thread_group w tcs ctx" and n: "tcs \<noteq> []" and full: "{0..<length tcs} \<subseteq> set s"
    and live: "\<forall>a. ptr = Some a \<longrightarrow> a \<in> dom (buffers w)"
  shows "spmd [s] (w, map (\<lambda>k. free_release (Some (tcs ! k)) ptr) [0..<length tcs])
       = Inr (with_calls (on_threads {0..<length tcs} (\<lambda>k. if k = 0 then [Call_free ptr] else []))
                (release ptr w), replicate (length tcs) (Return ()))"
proof -
  define G where "G D = with_calls (on_threads D (\<lambda>k. if k = 0 then [Call_free ptr] else []))
      (if 0 \<in> D then release ptr w else w)" for D
  have "spmd [s] (G {}, map (\<lambda>k. free_release (Some (tcs ! k)) ptr) [0..<length tcs])
       = Inr (G {0..<length tcs}, map (\<lambda>k. Return ()) [0..<length tcs])"
  proof (rule spmd_phase_last [OF _ full])
    fix k D assume "k < length tcs" "k \<notin> D"
    then show "advance (free_release (Some (tcs ! k)) ptr) (G D) = Inr (G (insert k D), Return ())"
      unfolding G_def by (intro release_phase_step [OF grp _ _ live])
  qed
  moreover have "0 \<in> {0..<length tcs}" using n by simp
  moreover have "map (\<lambda>k. Return ()) [0..<length tcs]
      = replicate (length tcs) (Return () :: ('a world, unit) prog)"
    by (rule nth_equalityI) simp_all
  ultimately show ?thesis by (simp add: G_def)
qed

lemma spmd_free:
  fixes w :: "'a world"
  assumes grp: "thread_group w tcs (Some f)" and fac: "factories w f = Some F"
    and cb: "sync F \<noteq> None" and n: "tcs \<noteq> []"
    and full: "{0..<length tcs} \<subseteq> set s1" "{0..<length tcs} \<subseteq> set s2"
    and live: "\<forall>a. ptr = Some a \<longrightarrow> a \<in> dom (buffers w)"
  shows "spmd [s1, s2] (w, map (\<lambda>c. mylib_ThreadControl_free (Some c) ptr) tcs)
       = Inr (with_calls (on_threads {0..<length tcs} (free_calls ptr F (length tcs)))
                (release ptr w), replicate (length tcs) (Return ()))"
proof -
  let ?n = "length tcs"
  let ?w1 = "with_calls (on_threads {0..<?n} (\<lambda>k. [sync_call F ?n k])) w"
  have ps: "map (\<lambda>c. mylib_ThreadControl_free (Some c) ptr) tcs
      = map (\<lambda>k. mylib_ThreadControl_free (Some (tcs ! k)) ptr) [0..<?n]"
    by (rule nth_equalityI) simp_all
  have 1: "spmd [s1, s2] (w, map (\<lambda>k. mylib_ThreadControl_free (Some (tcs ! k)) ptr) [0..<?n])
      = spmd [s2] (?w1, map (\<lambda>k. (\<lambda>_. free_release (Some (tcs ! k)) ptr) ()) [0..<?n])"
  proof (rule spmd_sync_phase [OF grp fac cb n full(1)])
    fix k and w' :: "'a world"
    show "advance (mylib_ThreadControl_free (Some (tcs ! k)) ptr) w'
        = advance (pbind (mylib_ThreadControl_sync (Some (tcs ! k)))
            (\<lambda>_. free_release (Some (tcs ! k)) ptr)) w'"
      by (simp add: free_parts pseq_def)
  qed
  have grp1: "thread_group ?w1 tcs (Some f)" using grp by simp
  have live1: "\<forall>a. ptr = Some a \<longrightarrow> a \<in> dom (buffers ?w1)" using live by simp
  have 2: "spmd [s2] (?w1, map (\<lambda>k. free_release (Some (tcs ! k)) ptr) [0..<?n])
      = Inr (with_calls (on_threads {0..<?n} (\<lambda>k. if k = 0 then [Call_free ptr] else []))
                (release ptr ?w1), replicate ?n (Return ()))"
    by (rule spmd_release [OF grp1 n full(2) live1])
  have "free_calls ptr F ?n = (\<lambda>k. [sync_call F ?n k] @ (if k = 0 then [Call_free ptr] else []))"
    by (simp add: fun_eq_iff free_calls_def)
  then have 3: "with_calls (on_threads {0..<?n} (\<lambda>k. if k = 0 then [Call_free ptr] else []))
                (release ptr ?w1)
      = with_calls (on_threads {0..<?n} (free_calls ptr F ?n)) (release ptr w)"
    by (simp add: release_with_calls with_calls_with_calls on_threads_append)
  show ?thesis unfolding ps using 1 2 3 by simp
qed

lemma spmd_malloc_free:
  fixes w :: "'a world"
  assumes grp: "thread_group w tcs (Some f)" and fac: "factories w f = Some F"
    and cb: "sync F \<noteq> None" and n: "tcs \<noteq> []"
    and full: "{0..<length tcs} \<subseteq> set s1" "{0..<length tcs} \<subseteq> set s2"
      "{0..<length tcs} \<subseteq> set s3" "{0..<length tcs} \<subseteq> set s4"
  shows "spmd [s1, s2, s3, s4] (w, map (\<lambda>c. malloc_then_free m (Some c) num_bytes) tcs)
       = Inr (with_calls (on_threads {0..<length tcs} (malloc_free_calls m F (length tcs) num_bytes))
                (release (map_option fst m) (publish m f F num_bytes w)),
              replicate (length tcs) (Return ()))"
proof -
  let ?n = "length tcs"
  let ?P = "map_option fst m"
  let ?F = "F\<lparr>shared_data := ?P\<rparr>"
  let ?w2 = "with_calls (on_threads {0..<?n} (malloc_calls F ?n num_bytes)) (publish m f F num_bytes w)"
  let ?w3 = "with_calls (on_threads {0..<?n} (\<lambda>k. [sync_call ?F ?n k])) ?w2"
  have ps: "map (\<lambda>c. malloc_then_free m (Some c) num_bytes) tcs
      = map (\<lambda>k. pbind (mylib_ThreadControl_malloc m (Some (tcs ! k)) num_bytes)
                  (mylib_ThreadControl_free (Some (tcs ! k)))) [0..<?n]"
    by (rule nth_equalityI) (simp_all add: malloc_then_free_def)
  have 12: "spmd [s1, s2, s3, s4] (w, map (\<lambda>c. malloc_then_free m (Some c) num_bytes) tcs)
      = spmd [s3, s4] (?w2, map (\<lambda>k. pbind (malloc_read (Some (tcs ! k)))
                  (mylib_ThreadControl_free (Some (tcs ! k)))) [0..<?n])"
    unfolding ps by (rule spmd_malloc [OF grp fac cb n full(1,2)])
  have grp2: "thread_group ?w2 tcs (Some f)" using grp by simp
  have fac2: "factories ?w2 f = Some ?F" by simp
  have cb2: "sync ?F \<noteq> None" using cb by simp
  have 3: "spmd [s3, s4] (?w2, map (\<lambda>k. pbind (malloc_read (Some (tcs ! k)))
                  (mylib_ThreadControl_free (Some (tcs ! k)))) [0..<?n])
      = spmd [s4] (?w3, map (\<lambda>k. free_release (Some (tcs ! k)) ?P) [0..<?n])"
  proof (rule spmd_sync_phase [OF grp2 fac2 cb2 n full(3)])
    fix k and w' :: "'a world"
    assume k: "k < ?n" and same: "controls w' = controls ?w2" "factories w' = factories ?w2"
    have c: "controls w' (tcs ! k) = Some \<lparr>tid = int k, tsize = int ?n, shared_context = Some f\<rparr>"
      using grp k same by (simp add: thread_group_def)
    have "factories w' f = Some ?F" using same by simp
    from advance_malloc_read [OF c _ this, of "mylib_ThreadControl_free (Some (tcs ! k))"]
    show "advance (pbind (malloc_read (Some (tcs ! k))) (mylib_ThreadControl_free (Some (tcs ! k)))) w'
        = advance (pbind (mylib_ThreadControl_sync (Some (tcs ! k)))
                    (\<lambda>_. free_release (Some (tcs ! k)) ?P)) w'"
      by (simp add: free_parts pseq_def)
  qed
  have grp3: "thread_group ?w3 tcs (Some f)" using grp by simp
  have live: "\<forall>a. ?P = Some a \<longrightarrow> a \<in> dom (buffers ?w3)"
    by (cases m) (auto simp add: publish_def)
  have 4: "spmd [s4] (?w3, map (\<lambda>k. free_release (Some (tcs ! k)) ?P) [0..<?n])
      = Inr (with_calls (on_threads {0..<?n} (\<lambda>k. if k = 0 then [Call_free ?P] else []))
                (release ?P ?w3), replicate ?n (Return ()))"
    by (rule spmd_release [OF grp3 n full(4) live])
  have "malloc_free_calls m F ?n num_bytes
      = (\<lambda>k. (malloc_calls F ?n num_bytes k @ [sync_call F ?n k])
             @ (if k = 0 then [Call_free ?P] else []))"
    by (simp add: fun_eq_iff malloc_free_calls_def)
  then have 5: "with_calls (on_threads {0..<?n} (\<lambda>k. if k = 0 then [Call_free ?P] else []))
                (release ?P ?w3)
      = with_calls (on_threads {0..<?n} (malloc_free_calls m F ?n num_bytes))
                (release ?P (publish m f F num_bytes w))"
    by (simp add: release_with_calls with_calls_with_calls on_threads_append)
  show ?thesis using 12 3 4 5 by simp
qed

lemma malloc_free_world:
  assumes "\<forall>p junk. m = Some (p, junk) \<longrightarrow> buffers w p = None"
  shows "release (map_option fst m) (publish m f F nb w)
       = w\<lparr>factories := (factories w)(f \<mapsto> F\<lparr>shared_data := map_option fst m\<rparr>)\<rparr>"
proof (cases m)
  case None
  then show ?thesis by (simp add: release_def publish_def)
next
  case (Some a)
  obtain p junk where a: "a = (p, junk)" by (cases a)
  have "buffers w p = None" using assms Some a by simp
  then have "(buffers w)(p := None) = buffers w" by (simp add: fun_upd_idem)
  then show ?thesis using Some a by (simp add: release_def publish_def)
qed

text \<open>
  Claim C9 says that after every thread performed \<open>mylib_ThreadControl_malloc\<close> and at
  once \<open>mylib_ThreadControl_free\<close>, the shared slot of the factory is empty again.
  In the example the slot is null before; afterwards it holds the address 50 of the
  block that was allocated and released.
\<close>

theorem shared_slot_counterexample:
  "map_option (\<lambda>w'. map_option shared_data (factories w' 100))
     (final_world (spmd [[0, 1], [0, 1], [0, 1], [0, 1]]
        (example_world, map (\<lambda>c. malloc_then_free example_block (Some c) 16) [200, 201])))
   = Some (Some (Some 50))"
proof -
  have "spmd [[0, 1], [0, 1], [0, 1], [0, 1]]
        (example_world, map (\<lambda>c. malloc_then_free example_block (Some c) 16) [200, 201])
      = Inr (with_calls (on_threads {0..<length [200::nat, 201]}
                (malloc_free_calls example_block
                    \<lparr>sync = Some 1, sync_data = Some 2, shared_data = None\<rparr> (length [200::nat, 201]) 16))
                (release (map_option fst example_block)
                   (publish example_block 100
                      \<lparr>sync = Some 1, sync_data = Some 2, shared_data = None\<rparr> 16 example_world)),
              replicate (length [200::nat, 201]) (Return ()))"
    by (rule spmd_malloc_free [OF example_group example_factory _ _ example_full example_full
          example_full example_full]) simp_all
  then show ?thesis by (simp add: final_world_def example_block_def)
qed

text \<open>
  Claim C9, amended. When every thread of a group executes
  \<open>mylib_ThreadControl_free\<close> with the address of a live block, every thread calls the
  barrier once and then only the thread with index 0 calls \<open>free\<close>; the block is
  released. When every thread executes \<open>mylib_ThreadControl_malloc\<close> and at once
  \<open>mylib_ThreadControl_free\<close> on the same control, all threads return, the block is
  released and the heap of arrays is as before, and \<open>shared_data\<close> holds the address
  that \<open>malloc\<close> answered, that of the released block.
\<close>

theorem shared_malloc_free:
  fixes w :: "'a world"
  assumes grp: "thread_group w tcs (Some f)" and fac: "factories w f = Some F"
    and cb: "sync F \<noteq> None" and n: "tcs \<noteq> []"
    and full: "\<forall>s\<in>set [s1, s2, s3, s4]. {0..<length tcs} \<subseteq> set s"
    and live: "\<forall>a. ptr = Some a \<longrightarrow> a \<in> dom (buffers w)"
    and fresh: "\<forall>p junk. m = Some (p, junk) \<longrightarrow> buffers w p = None"
  shows "spmd [s1, s2] (w, map (\<lambda>c. mylib_ThreadControl_free (Some c) ptr) tcs)
       = Inr (with_calls (on_threads {0..<length tcs} (free_calls ptr F (length tcs)))
                (release ptr w), replicate (length tcs) (Return ()))
     \<and> spmd [s1, s2, s3, s4] (w, map (\<lambda>c. malloc_then_free m (Some c) num_bytes) tcs)
       = Inr (with_calls (on_threads {0..<length tcs} (malloc_free_calls m F (length tcs) num_bytes))
                (w\<lparr>factories := (factories w)(f \<mapsto> F\<lparr>shared_data := map_option fst m\<rparr>)\<rparr>),
              replicate (length tcs) (Return ()))"
proof -
  note fulls = full [simplified]
  have "spmd [s1, s2] (w, map (\<lambda>c. mylib_ThreadControl_free (Some c) ptr) tcs)
       = Inr (with_calls (on_threads {0..<length tcs} (free_calls ptr F (length tcs)))
                (release ptr w), replicate (length tcs) (Return ()))"
    using fulls by (intro spmd_free [OF grp fac cb n _ _ live]) simp_all
  moreover have "spmd [s1, s2, s3, s4] (w, map (\<lambda>c. malloc_then_free m (Some c) num_bytes) tcs)
       = Inr (with_calls (on_threads {0..<length tcs} (malloc_free_calls m F (length tcs) num_bytes))
                (release (map_option fst m) (publish m f F num_bytes w)),
              replicate (length tcs) (Return ()))"
    using fulls by (intro spmd_malloc_free [OF grp fac cb n]) simp_all
  ultimately show ?thesis unfolding malloc_free_world [OF fresh] by simp
qed

theorem shared_malloc_free_witness:
  "map_option (\<lambda>w'. (buffers w' 12, calls w' 0, calls w' 1))
     (final_world (spmd [[0, 1], [1, 0]]
        (example_world, map (\<lambda>c. mylib_ThreadControl_free (Some c) (Some 12)) [200, 201])))
   = Some (None, [Call_sync (Some 1) 0 2 (Some 2), Call_free (Some 12)],
           [Call_sync (Some 1) 1 2 (Some 2)])
   \<and> map_option (\<lambda>w'. (map_option shared_data (factories w' 100), buffers w' 50,
                     calls w' 0, calls w' 1))
     (final_world (spmd [[0, 1], [1, 0], [0, 1], [1, 0, 1]]
        (example_world, map (\<lambda>c. malloc_then_free example_block (Some c) 16) [200, 201])))
   = Some (Some (Some 50), None,
           [Call_sync (Some 1) 0 2 (Some 2), Call_malloc 16, Call_sync (Some 1) 0 2 (Some 2),
            Call_sync (Some 1) 0 2 (Some 2), Call_free (Some 50)],
           [Call_sync (Some 1) 1 2 (Some 2), Call_sync (Some 1) 1 2 (Some 2),
            Call_sync (Some 1) 1 2 (Some 2)])"
proof -
  have n: "[200::nat, 201] \<noteq> []" by simp
  have full: "\<forall>s\<in>set [[0, 1], [1, 0], [0, 1], [1::nat, 0, 1]].
      {0..<length [200::nat, 201]} \<subseteq> set s" by auto
  have live: "\<forall>a. Some (12::nat) = Some a \<longrightarrow> a \<in> dom (buffers example_world)"
    by (simp add: example_world_def)
  have fresh: "\<forall>p junk. example_block = Some (p, junk) \<longrightarrow> buffers example_world p = None"
    by (simp add: example_block_def example_world_def)
  from shared_malloc_free [OF example_group example_factory example_callback n full live fresh,
      of 16]
  show ?thesis
    by (simp add: final_world_def example_block_def release_def on_threads_def
        malloc_free_calls_def malloc_calls_def free_calls_def
        sync_call_def example_world_def numeral_2_eq_2)
qed

subsection \<open>What the release leaves unchanged\<close>

lemma keeps_pbind: "keeps X p \<Longrightarrow> (\<And>r. keeps X (k r)) \<Longrightarrow> keeps X (pbind p k)"
  by (induction p) simp_all

lemma keeps_advance:
  "keeps X p \<Longrightarrow> advance p w = Inr (w', p') \<Longrightarrow> X w' = X w \<and> keeps X p'"
proof (induction p arbitrary: w)
  case (Read f)
  then show ?case by (metis advance.simps(4) keeps.simps(4) rangeI)
next
  case (Write g p)
  then show ?case by (metis advance.simps(5) keeps.simps(5))
qed auto

lemma keeps_resume: "keeps X p \<Longrightarrow> keeps X (resume p)"
  by (cases p) simp_all

lemma keeps_run_thread:
  assumes "\<forall>p\<in>set ps. keeps X p" "run_thread k (w, ps) = Inr (w', ps')"
  shows "X w' = X w \<and> (\<forall>p\<in>set ps'. keeps X p)"
proof (cases "k < length ps")
  case True
  with assms(2) obtain p' where a: "advance (ps ! k) w = Inr (w', p')" and ps': "ps' = ps[k := p']"
    by (auto split: sum.splits)
  have "keeps X (ps ! k)" using assms(1) True by simp
  from keeps_advance [OF this a] have "X w' = X w" "keeps X p'" by simp_all
  moreover have "set ps' \<subseteq> insert p' (set ps)" unfolding ps' by (rule set_update_subset_insert)
  ultimately show ?thesis using assms(1) by auto
next
  case False
  then show ?thesis using assms by simp
qed

lemma keeps_run_phase:
  assumes "\<forall>p\<in>set ps. keeps X p" "run_phase s (w, ps) = Inr (w', ps')"
  shows "X w' = X w \<and> (\<forall>p\<in>set ps'. keeps X p)"
  using assms
proof (induction s arbitrary: w ps)
  case Nil
  then show ?case by simp
next
  case (Cons k s)
  from Cons.prems(2) obtain w1 ps1 where
    1: "run_thread k (w, ps) = Inr (w1, ps1)" and 2: "run_phase s (w1, ps1) = Inr (w', ps')"
    by (auto split: sum.splits)
  from keeps_run_thread [OF Cons.prems(1) 1] have "X w1 = X w" "\<forall>p\<in>set ps1. keeps X p"
    by simp_all
  with Cons.IH [OF _ 2] show ?case by simp
qed

lemma keeps_barrier:
  assumes "\<forall>p\<in>set ps. keeps X p" "barrier ps = Inr ps'"
  shows "\<forall>p\<in>set ps'. keeps X p"
  using assms by (auto simp add: barrier_def keeps_resume split: if_splits)

lemma keeps_spmd:
  assumes "\<forall>p\<in>set ps. keeps X p" "spmd ss (w, ps) = Inr (w', ps')"
  shows "X w' = X w"
  using assms
proof (induction ss arbitrary: w ps)
  case Nil
  then show ?case by simp
next
  case (Cons s ss)
  from Cons.prems(2) obtain w1 ps1 ps2 where
    1: "run_phase s (w, ps) = Inr (w1, ps1)" and 2: "barrier ps1 = Inr ps2"
    and 3: "spmd ss (w1, ps2) = Inr (w', ps')"
    by (auto split: sum.splits)
  from keeps_run_phase [OF Cons.prems(1) 1] have "X w1 = X w" "\<forall>p\<in>set ps1. keeps X p"
    by simp_all
  moreover from keeps_barrier [OF this(2) 2] have "\<forall>p\<in>set ps2. keeps X p" .
  ultimately show ?case using Cons.IH [OF _ 3] by simp
qed

lemma keeps_free:
  "keeps (\<lambda>w. (controls w, factories w)) (mylib_ThreadControl_free tcontrol ptr)"
  by (auto simp add: mylib_ThreadControl_free_def mylib_ThreadControl_sync_def call_sync_def
      load_control_def load_factory_def c_free_def log_call_def pseq_def
      intro!: keeps_pbind split: option.splits)

text \<open>
  Claim C10. Whatever controls and addresses the threads pass to
  \<open>mylib_ThreadControl_free\<close>, and however far the group runs: every control and
  every factory is left as it was, field by field. In particular \<open>shared_data\<close> is not
  cleared, and still holds the address of the block that was released.
\<close>

theorem shared_free_frame:
  assumes "spmd scheds (w, map (\<lambda>(tcontrol, ptr). mylib_ThreadControl_free tcontrol ptr) args)
           = Inr (w', ps')"
  shows "controls w' = controls w \<and> factories w' = factories w"
proof -
  have "\<forall>p\<in>set (map (\<lambda>(tcontrol, ptr). mylib_ThreadControl_free tcontrol ptr) args).
          keeps (\<lambda>w. (controls w, factories w)) p"
    by (auto simp add: keeps_free)
  from keeps_spmd [OF this assms] show ?thesis by simp
qed

theorem shared_free_frame_witness:
  "final_world (spmd [[0, 1], [1, 0]]
      (stale_world, map (\<lambda>(tcontrol, ptr). mylib_ThreadControl_free tcontrol ptr)
         [(Some 200, Some 12), (Some 201, Some 12)]))
   = Some (with_calls (on_threads {0..<2}
              (free_calls (Some 12) \<lparr>sync = Some 1, sync_data = Some 2, shared_data = Some 12\<rparr> 2))
             (release (Some 12) stale_world))
   \<and> controls (with_calls (on_threads {0..<2}
              (free_calls (Some 12) \<lparr>sync = Some 1, sync_data = Some 2, shared_data = Some 12\<rparr> 2))
             (release (Some 12) stale_world)) = controls stale_world
   \<and> factories (with_calls (on_threads {0..<2}
              (free_calls (Some 12) \<lparr>sync = Some 1, sync_data = Some 2, shared_data = Some 12\<rparr> 2))
             (release (Some 12) stale_world)) = factories stale_world
   \<and> map_option shared_data (factories stale_world 100) = Some (Some 12)
   \<and> buffers (release (Some 12) stale_world) 12 = None"
proof -
  let ?F = "\<lparr>sync = Some 1, sync_data = Some 2, shared_data = Some 12\<rparr>"
  let ?W = "with_calls (on_threads {0..<2} (free_calls (Some 12) ?F 2)) (release (Some 12) stale_world)"
  have grp: "thread_group stale_world [200, 201] (Some 100)"
    by (simp add: thread_group_def stale_world_def example_world_def All_less_Suc)
  have fac: "factories stale_world 100 = Some ?F" by (simp add: stale_world_def)
  have cb: "sync ?F \<noteq> None" by simp
  have n: "[200::nat, 201] \<noteq> []" by simp
  have full: "{0..<length [200::nat, 201]} \<subseteq> set [1::nat, 0]" by auto
  have live: "\<forall>a. Some (12::nat) = Some a \<longrightarrow> a \<in> dom (buffers stale_world)"
    by (simp add: stale_world_def example_world_def)
  have m: "map (\<lambda>(tcontrol, ptr). mylib_ThreadControl_free tcontrol ptr)
         [(Some 200, Some 12), (Some 201, Some 12)]
      = map (\<lambda>c. mylib_ThreadControl_free (Some c) (Some 12)) [200, 201]" by simp
  have l: "length [200::nat, 201] = 2" by simp
  have run: "spmd [[0, 1], [1, 0]]
      (stale_world, map (\<lambda>(tcontrol, ptr). mylib_ThreadControl_free tcontrol ptr)
         [(Some 200, Some 12), (Some 201, Some 12)])
      = Inr (?W, replicate 2 (Return ()))"
    unfolding m using spmd_free [OF grp fac cb n example_full full live] unfolding l .
  have fin: "final_world (spmd [[0, 1], [1, 0]]
      (stale_world, map (\<lambda>(tcontrol, ptr). mylib_ThreadControl_free tcontrol ptr)
         [(Some 200, Some 12), (Some 201, Some 12)])) = Some ?W"
    unfolding run by (simp add: final_world_def)
  have rest: "map_option shared_data (factories stale_world 100) = Some (Some 12)"
    "buffers (release (Some 12) stale_world) 12 = None"
    by (simp_all add: stale_world_def release_def)
  from shared_free_frame [OF run] fin rest show ?thesis by blast
qed

subsection \<open>Allocation failure\<close>

lemma malloc_failed_world:
  "publish None f F nb w = w\<lparr>factories := (factories w)(f \<mapsto> F\<lparr>shared_data := None\<rparr>)\<rparr>"
  by (simp add: publish_def)

text \<open>
  Claim C7 says that every allocating operation fails with \<open>AllocationError\<close> when
  \<open>malloc\<close> returns null. \<open>mylib_ThreadFactory_create\<close> returns normally.
\<close>

theorem allocation_failure_counterexample:
  "advance (mylib_ThreadFactory_create None) example_world \<noteq> Inl AllocationError"
  by (simp add: mylib_ThreadFactory_create_def)

text \<open>
  Claim C7, amended. No allocating operation reports that memory could not be
  obtained. When \<open>malloc\<close> returns null, \<open>mylib_ThreadFactory_create\<close> returns normally
  with the null pointer as the factory; \<open>mylib_ThreadFactory_create_control\<close> assigns
  the defaults through the null pointer, which is undefined behaviour; and in
  \<open>mylib_ThreadControl_malloc\<close> the thread with index 0 stores null in \<open>shared_data\<close>
  and every thread returns normally with the null pointer.
\<close>

theorem allocation_failure_unreported:
  fixes w :: "'a world"
  assumes grp: "thread_group w tcs (Some f)" and fac: "factories w f = Some F"
    and cb: "sync F \<noteq> None" and n: "tcs \<noteq> []"
    and full: "\<forall>s\<in>set [s1, s2, s3]. {0..<length tcs} \<subseteq> set s"
  shows "advance (mylib_ThreadFactory_create None) w = Inr (w, Return None)
     \<and> advance (mylib_ThreadFactory_create_control None tfactory) w = Inl NullDereference
     \<and> spmd [s1, s2, s3] (w, map (\<lambda>c. mylib_ThreadControl_malloc None (Some c) num_bytes) tcs)
       = Inr (with_calls (on_threads {0..<length tcs} (malloc_calls F (length tcs) num_bytes))
                (w\<lparr>factories := (factories w)(f \<mapsto> F\<lparr>shared_data := None\<rparr>)\<rparr>),
              replicate (length tcs) (Return None))"
proof (intro conjI)
  show "advance (mylib_ThreadFactory_create None) w = Inr (w, Return None)"
    by (simp add: mylib_ThreadFactory_create_def)
  show "advance (mylib_ThreadFactory_create_control None tfactory) w = Inl NullDereference"
    by (simp add: mylib_ThreadFactory_create_control_def)
  let ?n = "length tcs"
  note fulls = full [simplified]
  let ?w2 = "with_calls (on_threads {0..<?n} (malloc_calls F ?n num_bytes)) (publish None f F num_bytes w)"
  have ps: "map (\<lambda>c. mylib_ThreadControl_malloc None (Some c) num_bytes) tcs
      = map (\<lambda>k. pbind (mylib_ThreadControl_malloc None (Some (tcs ! k)) num_bytes) Return) [0..<?n]"
    by (rule nth_equalityI) (simp_all add: pbind_Return)
  have 12: "spmd [s1, s2, s3]
        (w, map (\<lambda>k. pbind (mylib_ThreadControl_malloc None (Some (tcs ! k)) num_bytes) Return) [0..<?n])
      = spmd [s3] (?w2, map (\<lambda>k. pbind (malloc_read (Some (tcs ! k))) Return) [0..<?n])"
    using fulls by (intro spmd_malloc [OF grp fac cb n]) simp_all
  have "spmd [s3] (?w2, map (\<lambda>k. pbind (malloc_read (Some (tcs ! k))) Return) [0..<?n])
      = Inr (?w2, map (\<lambda>k. Return None) [0..<?n])"
  proof (rule spmd_phase_last [where G = "\<lambda>D. ?w2"])
    show "{0..<?n} \<subseteq> set s3" using fulls by simp
  next
    fix k assume k: "k < ?n"
    have "controls ?w2 (tcs ! k) = Some \<lparr>tid = int k, tsize = int ?n, shared_context = Some f\<rparr>"
      using grp k by (simp add: thread_group_def)
    from advance_malloc_read [OF this, of f "F\<lparr>shared_data := None\<rparr>" Return]
    show "advance (pbind (malloc_read (Some (tcs ! k))) Return) ?w2 = Inr (?w2, Return None)"
      by simp
  qed
  moreover have "map (\<lambda>k. Return None) [0..<?n]
      = replicate ?n (Return None :: ('a world, pointer) prog)"
    by (rule nth_equalityI) simp_all
  ultimately show "spmd [s1, s2, s3]
        (w, map (\<lambda>c. mylib_ThreadControl_malloc None (Some c) num_bytes) tcs)
       = Inr (with_calls (on_threads {0..<?n} (malloc_calls F ?n num_bytes))
                (w\<lparr>factories := (factories w)(f \<mapsto> F\<lparr>shared_data := None\<rparr>)\<rparr>),
              replicate ?n (Return None))"
    unfolding ps using 12 by (simp add: malloc_failed_world)
qed

theorem allocation_failure_unreported_witness:
  "advance (mylib_ThreadFactory_create None) example_world = Inr (example_world, Return None)
   \<and> advance (mylib_ThreadFactory_create_control None (Some 100)) example_world
       = Inl NullDereference
   \<and> map_option (\<lambda>w'. map_option shared_data (factories w' 100))
       (final_world (spmd [[0, 1], [1, 0], [0, 1]]
          (example_world, map (\<lambda>c. mylib_ThreadControl_malloc None (Some c) 16) [200, 201])))
     = Some (Some None)"
proof -
  have cb: "sync \<lparr>sync = Some 1, sync_data = Some 2, shared_data = None\<rparr> \<noteq> None" by simp
  have n: "[200::nat, 201] \<noteq> []" by simp
  have full: "\<forall>s\<in>set [[0, 1], [1, 0], [0::nat, 1]]. {0..<length [200::nat, 201]} \<subseteq> set s"
    by auto
  from allocation_failure_unreported [OF example_group example_factory cb n full,
      of "Some 100" 16]
  show ?thesis by (simp add: final_world_def)
qed

text \<open>
  Claim C8 says that the fields of a fresh factory are null.
  \<open>mylib_ThreadFactory_create\<close> assigns no field: the factory holds what the block of
  \<open>malloc\<close> held, here three pointers that are not null.
\<close>

theorem factory_fields_indeterminate:
  "advance (mylib_ThreadFactory_create (Some (300, example_junk))) example_world
   = Inr (example_world\<lparr>factories := (factories example_world)(300 \<mapsto> example_junk)\<rparr>,
          Return (Some 300))
   \<and> sync example_junk \<noteq> None \<and> sync_data example_junk \<noteq> None
   \<and> shared_data example_junk \<noteq> None"
  by (simp add: mylib_ThreadFactory_create_def example_junk_def)

section \<open>The dot product\<close>

lemma dot_parts:
  "mylib_vector_dot m tcontrol v1 v2 dotresult vsize =
     pbind (load_control tcontrol) (\<lambda>tc0.
     pbind (mylib_ThreadControl_malloc m tcontrol (c_int (tsize tc0 * sizeof_double)))
       (dot_body tcontrol v1 v2 dotresult vsize))"
  by (simp add: mylib_vector_dot_def dot_body_def [abs_def] dot_finish_def)

lemma c_div_sizeof: "c_div (int n * sizeof_double) sizeof_double = int n"
  by (simp add: sizeof_double_def c_div_nonneg)

lemma dot_accumulate_step:
  fixes w :: "'a::{zero,plus,times} world"
  assumes grp: "thread_group w tcs (Some f)" and fac: "factories w f = Some F"
    and cb: "sync F \<noteq> None" and sh: "shared_data F = Some p"
    and bufs: "buffers w a = Some xs" "buffers w b = Some ys" "buffers w p = Some ss"
    and len: "int (length xs) = vsize" "int (length ys) = vsize" "length ss = length tcs"
    and ne: "p \<noteq> a" "p \<noteq> b"
    and k: "k < length tcs" "k \<notin> D"
    and vi: "c_int vsize = vsize"
    and b0: "0 \<le> begin_index (int k) (elements_per_thread vsize (int (length tcs)))"
  shows "advance (pbind (malloc_read (Some (tcs ! k)))
                   (dot_body (Some (tcs ! k)) (Some a) (Some b) dotresult vsize))
           (with_calls (on_threads D (\<lambda>k. [sync_call F (length tcs) k]))
              (w\<lparr>buffers := (buffers w)(p \<mapsto>
                   map (\<lambda>j. if j \<in> D then thread_partial xs ys vsize (length tcs) j else ss ! j)
                     [0..<length tcs])\<rparr>))
         = Inr (with_calls (on_threads (insert k D) (\<lambda>k. [sync_call F (length tcs) k]))
              (w\<lparr>buffers := (buffers w)(p \<mapsto>
                   map (\<lambda>j. if j \<in> insert k D then thread_partial xs ys vsize (length tcs) j else ss ! j)
                     [0..<length tcs])\<rparr>),
              Sync (dot_finish (Some (tcs ! k)) dotresult (Some p)
                 \<lparr>tid = int k, tsize = int (length tcs), shared_context = Some f\<rparr>))"
proof -
  let ?n = "length tcs"
  let ?e = "elements_per_thread vsize (int ?n)"
  let ?S = "\<lambda>k. [sync_call F ?n k]"
  let ?slots = "\<lambda>D. map (\<lambda>j. if j \<in> D then thread_partial xs ys vsize ?n j else ss ! j) [0..<?n]"
  let ?w0 = "with_calls (on_threads D ?S) (w\<lparr>buffers := (buffers w)(p \<mapsto> ?slots D)\<rparr>)"
  let ?tc = "\<lparr>tid = int k, tsize = int ?n, shared_context = Some f\<rparr>"
  have c: "controls ?w0 (tcs ! k) = Some ?tc"
    using grp k by (simp add: thread_group_def)
  have f0: "factories ?w0 f = Some F" using fac by simp
  have ne0: "tcs \<noteq> []" using k by auto
  have e1: "end_index (int k) ?e vsize \<le> vsize" by (rule end_le_vsize)
  have ei: "c_int (end_index (int k) ?e vsize) = end_index (int k) ?e vsize"
    by (rule end_in_int [OF vi])
  let ?w1 = "?w0\<lparr>buffers := (buffers ?w0)(p \<mapsto> (?slots D)[k := 0])\<rparr>"
  let ?K = "\<lambda>_::unit. pbind (mylib_ThreadControl_sync (Some (tcs ! k)))
                (\<lambda>_. dot_finish (Some (tcs ! k)) dotresult (Some p) ?tc)"
  have loop: "advance (pbind (dot_loop (Some a) (Some b) (Some p) (int k)
             (begin_index (int k) ?e) (end_index (int k) ?e vsize)) ?K) ?w1
      = advance (?K ()) (?w1\<lparr>buffers := (buffers ?w1)(p \<mapsto>
            ((?slots D)[k := 0])[nat (int k) := foldl (\<lambda>s j. s + xs ! nat j * ys ! nat j)
               (((?slots D)[k := 0]) ! nat (int k))
               [begin_index (int k) ?e..end_index (int k) ?e vsize - 1]])\<rparr>)"
    using bufs ne b0 e1 ei len k by (intro dot_loop_run) simp_all
  have slots: "((?slots D)[k := 0])[nat (int k) := foldl (\<lambda>s j. s + xs ! nat j * ys ! nat j)
               (((?slots D)[k := 0]) ! nat (int k))
               [begin_index (int k) ?e..end_index (int k) ?e vsize - 1]] = ?slots (insert k D)"
    using k by (intro nth_equalityI) (auto simp add: nth_list_update thread_partial_def)
  have sync: "advance (?K ()) (with_calls (on_threads D ?S)
         (w\<lparr>buffers := (buffers w)(p \<mapsto> ?slots (insert k D))\<rparr>))
      = Inr (with_calls (on_threads (insert k D) ?S)
         (w\<lparr>buffers := (buffers w)(p \<mapsto> ?slots (insert k D))\<rparr>),
           Sync (dot_finish (Some (tcs ! k)) dotresult (Some p) ?tc))"
    using grp fac cb k by (intro sync_phase_step) simp_all
  have w2: "?w1\<lparr>buffers := (buffers ?w1)(p \<mapsto> ?slots (insert k D))\<rparr>
      = with_calls (on_threads D ?S) (w\<lparr>buffers := (buffers w)(p \<mapsto> ?slots (insert k D))\<rparr>)"
    by (simp add: with_calls_def)
  have "advance (pbind (malloc_read (Some (tcs ! k)))
                   (dot_body (Some (tcs ! k)) (Some a) (Some b) dotresult vsize)) ?w0
      = advance (dot_body (Some (tcs ! k)) (Some a) (Some b) dotresult vsize (Some p)) ?w0"
    using advance_malloc_read [OF c _ f0,
        of "dot_body (Some (tcs ! k)) (Some a) (Some b) dotresult vsize"] sh
    by simp
  also have "\<dots> = advance (pbind (dot_loop (Some a) (Some b) (Some p) (int k)
             (begin_index (int k) ?e) (end_index (int k) ?e vsize)) ?K) ?w1"
    using k len c ne0
    by (simp add: dot_body_def pbind_assoc pseq_def advance_load_control advance_store Let_def)
  finally have "advance (pbind (malloc_read (Some (tcs ! k)))
                   (dot_body (Some (tcs ! k)) (Some a) (Some b) dotresult vsize)) ?w0
      = advance (pbind (dot_loop (Some a) (Some b) (Some p) (int k)
             (begin_index (int k) ?e) (end_index (int k) ?e vsize)) ?K) ?w1" .
  then show ?thesis using loop slots sync w2 by simp
qed

lemma dot_reduce_step:
  fixes w :: "'a::plus world"
  assumes grp: "thread_group w tcs (Some f)" and fac: "factories w f = Some F"
    and cb: "sync F \<noteq> None"
    and bufs: "buffers w p = Some ps" "buffers w d = Some ds"
    and len: "length ps = length tcs" "ds \<noteq> []" and ne: "d \<noteq> p"
    and k: "k < length tcs" "k \<notin> D"
    and ni: "c_int (int (length tcs)) = int (length tcs)"
  shows "advance (dot_finish (Some (tcs ! k)) (Some d) (Some p)
                   \<lparr>tid = int k, tsize = int (length tcs), shared_context = Some f\<rparr>)
           (with_calls (on_threads D (\<lambda>k. [sync_call F (length tcs) k]))
              (if 0 \<in> D
               then w\<lparr>buffers := (buffers w)
                       (p \<mapsto> ps[0 := foldl (+) (ps ! 0) (map (\<lambda>j. ps ! nat j) [1..int (length tcs) - 1])],
                        d \<mapsto> ds[0 := foldl (+) (ps ! 0) (map (\<lambda>j. ps ! nat j) [1..int (length tcs) - 1])])\<rparr>
               else w))
         = Inr (with_calls (on_threads (insert k D) (\<lambda>k. [sync_call F (length tcs) k]))
              (if 0 \<in> insert k D
               then w\<lparr>buffers := (buffers w)
                       (p \<mapsto> ps[0 := foldl (+) (ps ! 0) (map (\<lambda>j. ps ! nat j) [1..int (length tcs) - 1])],
                        d \<mapsto> ds[0 := foldl (+) (ps ! 0) (map (\<lambda>j. ps ! nat j) [1..int (length tcs) - 1])])\<rparr>
               else w),
              Sync (mylib_ThreadControl_free (Some (tcs ! k)) (Some p)))"
proof -
  let ?n = "length tcs"
  let ?S = "\<lambda>k. [sync_call F ?n k]"
  let ?total = "foldl (+) (ps ! 0) (map (\<lambda>j. ps ! nat j) [1..int ?n - 1])"
  let ?red = "w\<lparr>buffers := (buffers w)(p \<mapsto> ps[0 := ?total], d \<mapsto> ds[0 := ?total])\<rparr>"
  let ?tc = "\<lparr>tid = int k, tsize = int ?n, shared_context = Some f\<rparr>"
  let ?K = "\<lambda>_::unit. mylib_ThreadControl_free (Some (tcs ! k)) (Some p)"
  have ps0: "0 < length ps" using k len by auto
  have ds0: "0 < length ds" using len by simp
  show ?thesis
  proof (cases "k = 0")
    case True
    then have D0: "0 \<notin> D" using k by simp
    let ?w0 = "with_calls (on_threads D ?S) w"
    let ?K1 = "\<lambda>_::unit. pbind (load (Some p) 0) (\<lambda>x. pbind (store (Some d) 0 x)
                 (\<lambda>_. pbind (mylib_ThreadControl_sync (Some (tcs ! k))) ?K))"
    have "advance (pbind (reduce_loop (Some p) 1 (int ?n)) ?K1) ?w0
        = advance (?K1 ()) (?w0\<lparr>buffers := (buffers ?w0)(p \<mapsto> ps[0 := ?total])\<rparr>)"
      using bufs len ni by (intro reduce_loop_run) (simp_all add: c_int_def)
    also have "\<dots> = advance (pbind (mylib_ThreadControl_sync (Some (tcs ! k))) ?K)
          ((?w0\<lparr>buffers := (buffers ?w0)(p \<mapsto> ps[0 := ?total])\<rparr>)
             \<lparr>buffers := (buffers w)(p \<mapsto> ps[0 := ?total], d \<mapsto> ds[0 := ?total])\<rparr>)"
      using bufs ne ps0 ds0
      by (simp add: advance_load advance_store)
    also have "(?w0\<lparr>buffers := (buffers ?w0)(p \<mapsto> ps[0 := ?total])\<rparr>)
             \<lparr>buffers := (buffers w)(p \<mapsto> ps[0 := ?total], d \<mapsto> ds[0 := ?total])\<rparr>
        = with_calls (on_threads D ?S) ?red"
      by (simp add: with_calls_def)
    also have "advance (pbind (mylib_ThreadControl_sync (Some (tcs ! k))) ?K)
          (with_calls (on_threads D ?S) ?red)
        = Inr (with_calls (on_threads (insert k D) ?S) ?red, Sync (?K ()))"
      using grp fac cb k by (intro sync_phase_step) simp_all
    finally show ?thesis using True D0
      by (simp add: dot_finish_def pseq_def pbind_assoc)
  next
    case False
    have "advance (pbind (mylib_ThreadControl_sync (Some (tcs ! k))) ?K)
          (with_calls (on_threads D ?S) (if 0 \<in> D then ?red else w))
        = Inr (with_calls (on_threads (insert k D) ?S) (if 0 \<in> D then ?red else w), Sync (?K ()))"
      using grp fac cb k by (intro sync_phase_step) simp_all
    then show ?thesis using False
      by (simp add: dot_finish_def pseq_def pbind_assoc)
  qed
qed

lemma upto_as_upt: "[int a..int b - 1] = map int [a..<b]"
proof (induction b)
  case 0
  then show ?case by simp
next
  case (Suc b)
  show ?case
  proof (cases "a \<le> b")
    case True
    then have "[int a..int (Suc b) - 1] = [int a..int b - 1] @ [int b]"
      using upto_rec2 [of "int a" "int b"] by simp
    then show ?thesis using Suc True by simp
  next
    case False
    then show ?thesis by simp
  qed
qed

lemma spmd_dot:
  fixes w :: "'a::{zero,plus,times} world"
  assumes grp: "thread_group w tcs (Some f)" and fac: "factories w f = Some F"
    and cb: "sync F \<noteq> None" and n: "tcs \<noteq> []"
    and full: "\<forall>s\<in>set [s1, s2, s3, s4, s5, s6]. {0..<length tcs} \<subseteq> set s"
    and fresh: "buffers w p = None"
    and bufs: "buffers w a = Some xs" "buffers w b = Some ys" "buffers w d = Some ds"
    and len: "int (length xs) = vsize" "int (length ys) = vsize" "ds \<noteq> []"
    and vi: "c_int vsize = vsize"
    and safe: "\<forall>k<length tcs.
        0 \<le> begin_index (int k) (elements_per_thread vsize (int (length tcs)))"
    and nb: "int (length tcs) * sizeof_double \<le> INT_MAX"
  shows "spmd [s1, s2, s3, s4, s5, s6]
           (w, map (\<lambda>c. mylib_vector_dot (Some (p, junk)) (Some c) (Some a) (Some b) (Some d) vsize) tcs)
       = Inr (with_calls (on_threads {0..<length tcs} (dot_calls p F (length tcs)))
                (w\<lparr>factories := (factories w)(f \<mapsto> F\<lparr>shared_data := Some p\<rparr>),
                   buffers := (buffers w)(d \<mapsto> ds[0 := reduced_total xs ys vsize (length tcs)])\<rparr>),
              replicate (length tcs) (Return ()))"
proof -
  let ?n = "length tcs"
  let ?nb = "int ?n * sizeof_double"
  let ?m = "Some (p, junk)"
  let ?F = "F\<lparr>shared_data := Some p\<rparr>"
  let ?S = "\<lambda>k. [sync_call F ?n k]"
  let ?all = "{0..<?n}"
  let ?tc = "\<lambda>k. \<lparr>tid = int k, tsize = int ?n, shared_context = Some f\<rparr>"
  let ?part = "thread_partial xs ys vsize ?n"
  let ?total = "reduced_total xs ys vsize ?n"
  have pa: "p \<noteq> a" and pb: "p \<noteq> b" and pd: "p \<noteq> d" using fresh bufs by auto
  have n0: "?n \<noteq> 0" using n by simp
  have nbi: "c_int (int ?n * sizeof_double) = int ?n * sizeof_double"
    using nb by (intro c_int_nat) (simp_all add: sizeof_double_def)
  have ni: "c_int (int ?n) = int ?n"
    using nb by (intro c_int_nat) (simp_all add: sizeof_double_def)
  note fulls = full [simplified]
  \<comment> \<open>the two barriers of the allocation\<close>
  let ?w2 = "with_calls (on_threads ?all (malloc_calls F ?n ?nb)) (publish ?m f F ?nb w)"
  let ?K = "\<lambda>k. dot_body (Some (tcs ! k)) (Some a) (Some b) (Some d) vsize"
  have ps: "map (\<lambda>c. mylib_vector_dot ?m (Some c) (Some a) (Some b) (Some d) vsize) tcs
      = map (\<lambda>k. mylib_vector_dot ?m (Some (tcs ! k)) (Some a) (Some b) (Some d) vsize) [0..<?n]"
    by (rule nth_equalityI) simp_all
  have 12: "spmd [s1, s2, s3, s4, s5, s6]
       (w, map (\<lambda>k. mylib_vector_dot ?m (Some (tcs ! k)) (Some a) (Some b) (Some d) vsize) [0..<?n])
      = spmd [s3, s4, s5, s6] (?w2, map (\<lambda>k. pbind (malloc_read (Some (tcs ! k))) (?K k)) [0..<?n])"
  proof (rule spmd_malloc_from [OF grp fac cb n])
    show "?all \<subseteq> set s1" "?all \<subseteq> set s2" using fulls by simp_all
  next
    fix k and w' :: "'a world"
    assume k: "k < ?n" and same: "controls w' = controls w"
    have "controls w' (tcs ! k) = Some (?tc k)"
      using grp k same by (simp add: thread_group_def)
    then show "advance (mylib_vector_dot ?m (Some (tcs ! k)) (Some a) (Some b) (Some d) vsize) w'
        = advance (pbind (mylib_ThreadControl_malloc ?m (Some (tcs ! k)) ?nb) (?K k)) w'"
      by (simp add: dot_parts advance_load_control nbi)
  qed
  \<comment> \<open>every thread fills its slot\<close>
  let ?junk = "map junk [0..<?n]"
  let ?slots = "\<lambda>D. map (\<lambda>j. if j \<in> D then ?part j else ?junk ! j) [0..<?n]"
  define G3 where "G3 D = with_calls (on_threads D ?S) (?w2\<lparr>buffers := (buffers ?w2)(p \<mapsto> ?slots D)\<rparr>)" for D
  have grp2: "thread_group ?w2 tcs (Some f)" using grp by simp
  have fac2: "factories ?w2 f = Some ?F" by simp
  have cb2: "sync ?F \<noteq> None" using cb by simp
  have bufs2: "buffers ?w2 a = Some xs" "buffers ?w2 b = Some ys" "buffers ?w2 d = Some ds"
    "buffers ?w2 p = Some ?junk"
    using bufs pa pb pd by (simp_all add: publish_def c_div_sizeof)
  have 3: "spmd [s3, s4, s5, s6] (G3 {}, map (\<lambda>k. pbind (malloc_read (Some (tcs ! k))) (?K k)) [0..<?n])
      = spmd [s4, s5, s6] (G3 ?all, map (\<lambda>k. dot_finish (Some (tcs ! k)) (Some d) (Some p) (?tc k)) [0..<?n])"
  proof (rule spmd_phase_sync [OF _ _ n0])
    show "?all \<subseteq> set s3" using fulls by simp
  next
    fix k D assume k: "k < ?n" "k \<notin> D"
    have b0: "0 \<le> begin_index (int k) (elements_per_thread vsize (int ?n))"
      using safe k by simp
    from dot_accumulate_step [OF grp2 fac2 cb2 _ bufs2(1,2,4) len(1,2) _ pa pb k vi b0,
        of "Some d"]
    show "advance (pbind (malloc_read (Some (tcs ! k))) (?K k)) (G3 D)
        = Inr (G3 (insert k D), Sync (dot_finish (Some (tcs ! k)) (Some d) (Some p) (?tc k)))"
      by (simp add: G3_def)
  qed
  have s0: "?slots {} = ?junk" by (rule nth_equalityI) simp_all
  have "?w2\<lparr>buffers := (buffers ?w2)(p \<mapsto> ?junk)\<rparr> = ?w2"
    by (rule world_buffers_same [OF bufs2(4)])
  then have G30: "G3 {} = ?w2"
    unfolding G3_def s0 by simp
  let ?ps = "map ?part [0..<?n]"
  let ?w3 = "with_calls (on_threads ?all ?S) (?w2\<lparr>buffers := (buffers ?w2)(p \<mapsto> ?ps)\<rparr>)"
  have sn: "?slots ?all = ?ps" by (rule nth_equalityI) simp_all
  have G3n: "G3 ?all = ?w3" unfolding G3_def sn by simp
  \<comment> \<open>the first thread adds the slots up\<close>
  have tot: "foldl (+) (?ps ! 0) (map (\<lambda>j. ?ps ! nat j) [1..int ?n - 1]) = ?total"
  proof -
    have a: "[1..int ?n - 1] = map int [1..<?n]" using upto_as_upt [of 1 ?n] by simp
    have "map (\<lambda>j. ?ps ! nat j) (map int [1..<?n]) = map (\<lambda>j. ?ps ! j) [1..<?n]"
      by (simp add: comp_def)
    also have "\<dots> = map ?part [1..<?n]"
      by (rule map_cong) simp_all
    finally have b: "map (\<lambda>j. ?ps ! nat j) (map int [1..<?n]) = map ?part [1..<?n]" .
    have c: "?ps ! 0 = ?part 0" using n0 by simp
    show ?thesis unfolding a b c reduced_total_def by (rule refl)
  qed
  let ?red = "?w3\<lparr>buffers := (buffers ?w3)(p \<mapsto> ?ps[0 := ?total], d \<mapsto> ds[0 := ?total])\<rparr>"
  define G4 where "G4 D = with_calls (on_threads D ?S) (if 0 \<in> D then ?red else ?w3)" for D
  have grp3: "thread_group ?w3 tcs (Some f)" using grp by simp
  have fac3: "factories ?w3 f = Some ?F" by simp
  have bufs3: "buffers ?w3 p = Some ?ps" "buffers ?w3 d = Some ds"
    using bufs2 pd by simp_all
  have 4: "spmd [s4, s5, s6] (G4 {}, map (\<lambda>k. dot_finish (Some (tcs ! k)) (Some d) (Some p) (?tc k)) [0..<?n])
      = spmd [s5, s6] (G4 ?all, map (\<lambda>k. mylib_ThreadControl_free (Some (tcs ! k)) (Some p)) [0..<?n])"
  proof (rule spmd_phase_sync [OF _ _ n0])
    show "?all \<subseteq> set s4" using fulls by simp
  next
    fix k D assume k: "k < ?n" "k \<notin> D"
    from dot_reduce_step [OF grp3 fac3 cb2 bufs3 _ len(3) _ k ni] pd
    show "advance (dot_finish (Some (tcs ! k)) (Some d) (Some p) (?tc k)) (G4 D)
        = Inr (G4 (insert k D), Sync (mylib_ThreadControl_free (Some (tcs ! k)) (Some p)))"
      unfolding G4_def tot by simp
  qed
  have G40: "G4 {} = ?w3" by (simp add: G4_def)
  let ?w4 = "with_calls (on_threads ?all ?S) ?red"
  have G4n: "G4 ?all = ?w4" using n0 by (simp add: G4_def)
  \<comment> \<open>the barrier of the release, and the release\<close>
  let ?w5 = "with_calls (on_threads ?all ?S) ?w4"
  have grp4: "thread_group ?w4 tcs (Some f)" using grp by simp
  have fac4: "factories ?w4 f = Some ?F" by simp
  have 5: "spmd [s5, s6] (?w4, map (\<lambda>k. mylib_ThreadControl_free (Some (tcs ! k)) (Some p)) [0..<?n])
      = spmd [s6] (with_calls (on_threads ?all (\<lambda>k. [sync_call ?F ?n k])) ?w4,
            map (\<lambda>k. (\<lambda>_. free_release (Some (tcs ! k)) (Some p)) ()) [0..<?n])"
  proof (rule spmd_sync_phase [OF grp4 fac4 cb2 n])
    show "?all \<subseteq> set s5" using fulls by simp
  next
    fix k and w' :: "'a world"
    show "advance (mylib_ThreadControl_free (Some (tcs ! k)) (Some p)) w'
        = advance (pbind (mylib_ThreadControl_sync (Some (tcs ! k)))
            (\<lambda>_. free_release (Some (tcs ! k)) (Some p))) w'"
      by (simp add: free_parts pseq_def)
  qed
  have grp5: "thread_group ?w5 tcs (Some f)" using grp by simp
  have live: "\<forall>q. Some p = Some q \<longrightarrow> q \<in> dom (buffers ?w5)" using pd by simp
  have s6: "?all \<subseteq> set s6" using fulls by simp
  have 6: "spmd [s6] (?w5, map (\<lambda>k. free_release (Some (tcs ! k)) (Some p)) [0..<?n])
      = Inr (with_calls (on_threads ?all (\<lambda>k. if k = 0 then [Call_free (Some p)] else []))
                (release (Some p) ?w5), replicate ?n (Return ()))"
    by (rule spmd_release [OF grp5 n s6 live])
  \<comment> \<open>the final world\<close>
  have calls: "dot_calls p F ?n = (\<lambda>k. (((malloc_calls F ?n ?nb k @ [sync_call F ?n k])
        @ [sync_call F ?n k]) @ [sync_call F ?n k]) @ (if k = 0 then [Call_free (Some p)] else []))"
    by (simp add: fun_eq_iff dot_calls_def)
  have bs: "((buffers w)(p \<mapsto> ?junk, p \<mapsto> ?ps, p \<mapsto> ?ps[0 := ?total], d \<mapsto> ds[0 := ?total]))(p := None)
      = (buffers w)(d \<mapsto> ds[0 := ?total])"
    using fresh pd by (auto simp add: fun_eq_iff)
  have fin: "with_calls (on_threads ?all (\<lambda>k. if k = 0 then [Call_free (Some p)] else []))
                (release (Some p) ?w5)
      = with_calls (on_threads ?all (dot_calls p F ?n))
                (w\<lparr>factories := (factories w)(f \<mapsto> ?F),
                   buffers := (buffers w)(d \<mapsto> ds[0 := ?total])\<rparr>)"
    unfolding calls
    using bs
    by (simp add: release_with_calls with_calls_buffers with_calls_with_calls on_threads_append
        release_def publish_def c_div_sizeof)
  show ?thesis
    unfolding ps using 12 3 4 5 6 fin by (simp add: G30 G3n G40 G4n)
qed

lemma foldl_add_sum_list:
  fixes a :: "'a::comm_monoid_add"
  shows "foldl (\<lambda>s j. s + g j) a js = a + sum_list (map g js)"
  by (induction js arbitrary: a) (simp_all add: add.assoc)

lemma thread_partial_sum:
  fixes xs :: "'a::semiring_0 list"
  shows "thread_partial xs ys vsize n k
       = (\<Sum>j\<in>thread_range vsize (int n) k. xs ! nat j * ys ! nat j)"
proof -
  let ?b = "begin_index (int k) (elements_per_thread vsize (int n))"
  let ?e = "end_index (int k) (elements_per_thread vsize (int n)) vsize"
  have "thread_partial xs ys vsize n k = sum_list (map (\<lambda>j. xs ! nat j * ys ! nat j) [?b..?e - 1])"
    by (simp add: thread_partial_def foldl_add_sum_list)
  also have "\<dots> = (\<Sum>j\<in>set [?b..?e - 1]. xs ! nat j * ys ! nat j)"
    by (rule sum_list_distinct_conv_sum_set) simp
  also have "set [?b..?e - 1] = thread_range vsize (int n) k"
    by (auto simp add: thread_range_def)
  finally show ?thesis .
qed

lemma reduced_total_sum:
  fixes xs :: "'a::semiring_0 list"
  assumes n: "0 < n" and len: "int (length xs) = vsize" and vn: "vsize + int n \<le> INT_MAX"
  shows "reduced_total xs ys vsize n = (\<Sum>i<length xs. xs ! i * ys ! i)"
proof -
  let ?g = "\<lambda>j. xs ! nat j * ys ! nat j"
  let ?R = "thread_range vsize (int n)"
  have v: "0 \<le> vsize" using len by auto
  have "foldl (+) (thread_partial xs ys vsize n 0) (map (thread_partial xs ys vsize n) [1..<n])
      = thread_partial xs ys vsize n 0 + sum_list (map (thread_partial xs ys vsize n) [1..<n])"
    using foldl_add_sum_list [of "\<lambda>j. j" "thread_partial xs ys vsize n 0"
        "map (thread_partial xs ys vsize n) [1..<n]"] by simp
  also have "\<dots> = sum_list (map (thread_partial xs ys vsize n) [0..<n])"
    using n by (simp add: upt_conv_Cons)
  also have "\<dots> = (\<Sum>k\<in>{0..<n}. thread_partial xs ys vsize n k)"
    by (simp add: interv_sum_list_conv_sum_set_nat)
  also have "\<dots> = (\<Sum>k\<in>{0..<n}. \<Sum>j\<in>?R k. ?g j)"
    by (simp add: thread_partial_sum)
  also have "\<dots> = (\<Sum>j\<in>(\<Union>k\<in>{0..<n}. ?R k). ?g j)"
  proof (rule sum.UNION_disjoint [symmetric])
    show "finite {0..<n}" by simp
    show "\<forall>k\<in>{0..<n}. finite (?R k)" by (simp add: thread_range_def)
    show "\<forall>j\<in>{0..<n}. \<forall>k\<in>{0..<n}. j \<noteq> k \<longrightarrow> ?R j \<inter> ?R k = {}"
      using thread_range_disjoint [OF n v vn] by auto
  qed
  also have "(\<Union>k\<in>{0..<n}. ?R k) = {0..<vsize}" by (rule thread_range_cover [OF n v vn])
  also have "(\<Sum>j\<in>{0..<vsize}. ?g j) = (\<Sum>i<length xs. xs ! i * ys ! i)"
    by (rule sum.reindex_bij_witness [where i = int and j = nat]) (use len in auto)
  finally show ?thesis by (simp add: reduced_total_def)
qed

lemma long_factory:
  "factories long_world 100 = Some \<lparr>sync = Some 1, sync_data = Some 2, shared_data = None\<rparr>"
  by (simp add: long_world_def example_world_def)

lemma long_partial_sums:
  "thread_partial long_vector long_vector 2147483647 2 0 = 1073741824"
  "thread_partial long_vector long_vector 2147483647 2 (Suc 0) = 0"
proof -
  have el: "long_vector ! nat j = 1" if "j \<in> {0..<1073741824::int}" for j
  proof -
    have "nat j < 2147483647" using that by auto
    then show ?thesis unfolding long_vector_def by (rule nth_replicate)
  qed
  have "(\<Sum>j\<in>{0..<1073741824::int}. long_vector ! nat j * long_vector ! nat j)
      = (\<Sum>j\<in>{0..<1073741824::int}. 1)"
    by (rule sum.cong) (simp_all add: el)
  then show "thread_partial long_vector long_vector 2147483647 2 0 = 1073741824"
    using thread_partial_sum [of long_vector long_vector 2147483647 2 0]
    by (simp add: long_ranges)
  show "thread_partial long_vector long_vector 2147483647 2 (Suc 0) = 0"
    using thread_partial_sum [of long_vector long_vector 2147483647 2 "Suc 0"]
    by (simp add: long_ranges)
qed

text \<open>
  Claim C1 says that the scalar written to \<open>dotresult\<close> is the sum of the products over
  \<open>[0, vsize)\<close>, for every \<open>tsize \<ge> 1\<close> and \<open>vsize \<ge> 0\<close>. For two threads and vectors
  of \<open>INT_MAX\<close> elements, all of them 1, the sum of the products is \<open>INT_MAX\<close>. Thread 0
  accumulates the \<open>2 ^ 30\<close> products below \<open>2 ^ 30\<close>. For thread 1
  \<open>(tid + 1) * elements_per_thread\<close> overflows, its \<open>end_index\<close> is \<open>INT_MIN\<close> and it
  accumulates nothing: \<open>dotresult\<close> receives \<open>2 ^ 30\<close>.
\<close>

theorem vector_dot_counterexample:
  "int (length long_vector) = 2147483647
   \<and> (\<Sum>i<length long_vector. long_vector ! i * long_vector ! i) = 2147483647
   \<and> map_option (\<lambda>w'. buffers w' 13)
       (final_world (spmd example_schedules
          (long_world,
           map (\<lambda>c. mylib_vector_dot example_block (Some c) (Some 10) (Some 11) (Some 13)
                  2147483647)
             [200, 201])))
     = Some (Some [1073741824])"
proof -
  have n: "[200::nat, 201] \<noteq> []" and ds: "[0::int] \<noteq> []" by simp_all
  have vi: "c_int 2147483647 = 2147483647" by (simp add: c_int_def)
  have nb: "int (length [200::nat, 201]) * sizeof_double \<le> INT_MAX"
    by (simp add: sizeof_double_def INT_MAX_def)
  have l: "length [200::nat, 201] = 2" by simp
  have one: "[1..<2::nat] = [Suc 0]" by (simp add: numeral_2_eq_2)
  have total: "reduced_total long_vector long_vector 2147483647 2 = 1073741824"
    unfolding reduced_total_def one by (simp add: long_partial_sums)
  have "(\<Sum>i<length long_vector. long_vector ! i * long_vector ! i)
      = (\<Sum>i<length long_vector. 1)"
    by (rule sum.cong) (simp_all add: long_vector_def)
  then have exact: "(\<Sum>i<length long_vector. long_vector ! i * long_vector ! i) = 2147483647"
    by (simp add: long_vector_def)
  note r = spmd_dot [OF long_group long_factory example_callback n example_schedules_full
      long_buffers(5) long_buffers(1,2,4) long_lengths(1,1) ds vi long_safe nb,
      of "\<lambda>_. 0", unfolded l total]
  from r have "map_option (\<lambda>w'. buffers w' 13)
       (final_world (spmd example_schedules
          (long_world,
           map (\<lambda>c. mylib_vector_dot example_block (Some c) (Some 10) (Some 11) (Some 13)
                  2147483647)
             [200, 201])))
     = Some (Some [1073741824])"
    by (simp add: final_world_def example_schedules_def example_block_def)
  then show ?thesis using long_lengths(1) exact by (intro conjI)
qed

text \<open>
  Claim C1, amended. When every thread of a group of \<open>length tcs \<ge> 1\<close> threads executes
  \<open>mylib_vector_dot\<close> once on vectors \<open>xs\<close> and \<open>ys\<close> of \<open>vsize \<ge> 0\<close> elements, where
  \<open>vsize + length tcs \<le> INT_MAX\<close> and \<open>length tcs * sizeof(double) \<le> INT_MAX\<close>, with a
  scratch block from \<open>malloc\<close>, then in whatever order the threads run between the
  barriers, all threads return and the element that \<open>dotresult\<close> points to holds
  \<open>reduced_total\<close>: the sum of the products \<open>xs ! i * ys ! i\<close> computed in a fixed order,
  in which slot 0, with the partial sum of thread 0, accumulates the partial sums of
  the threads \<open>1, \<dots>, length tcs - 1\<close> in increasing order. This holds for any addition
  and multiplication of the elements. In exact arithmetic, a semiring, \<open>reduced_total\<close>
  is the sum of the products over \<open>i < vsize\<close>, the same for every thread count.
\<close>

theorem vector_dot_result:
  fixes w :: "'a::{zero,plus,times} world" and us vs :: "'b::semiring_0 list"
  assumes grp: "thread_group w tcs (Some f)" and fac: "factories w f = Some F"
    and cb: "sync F \<noteq> None" and n: "tcs \<noteq> []"
    and vn: "vsize + int (length tcs) \<le> INT_MAX"
    and nb: "int (length tcs) * sizeof_double \<le> INT_MAX"
    and full: "\<forall>s\<in>set [s1, s2, s3, s4, s5, s6]. {0..<length tcs} \<subseteq> set s"
    and fresh: "buffers w p = None"
    and bufs: "buffers w a = Some xs" "buffers w b = Some ys" "buffers w d = Some ds"
    and len: "int (length xs) = vsize" "int (length ys) = vsize" "ds \<noteq> []"
    and exact: "int (length us) = vsize"
  shows "spmd [s1, s2, s3, s4, s5, s6]
           (w, map (\<lambda>c. mylib_vector_dot (Some (p, junk)) (Some c) (Some a) (Some b) (Some d) vsize) tcs)
       = Inr (with_calls (on_threads {0..<length tcs} (dot_calls p F (length tcs)))
                (w\<lparr>factories := (factories w)(f \<mapsto> F\<lparr>shared_data := Some p\<rparr>),
                   buffers := (buffers w)(d \<mapsto> ds[0 := reduced_total xs ys vsize (length tcs)])\<rparr>),
              replicate (length tcs) (Return ()))
     \<and> reduced_total xs ys vsize (length tcs)
       = foldl (+) (foldl (\<lambda>s j. s + xs ! nat j * ys ! nat j) 0
                      [begin_index 0 (elements_per_thread vsize (int (length tcs)))..
                       end_index 0 (elements_per_thread vsize (int (length tcs))) vsize - 1])
           (map (thread_partial xs ys vsize (length tcs)) [1..<length tcs])
     \<and> reduced_total us vs vsize (length tcs) = (\<Sum>i<length us. us ! i * vs ! i)"
proof (intro conjI)
  have n0: "0 < length tcs" using n by simp
  have n1: "1 \<le> int (length tcs)" using n by (cases tcs) simp_all
  have v0: "0 \<le> vsize" using len by auto
  have vi: "c_int vsize = vsize" using v0 vn by (intro c_int_nat) simp_all
  have safe: "\<forall>k<length tcs.
      0 \<le> begin_index (int k) (elements_per_thread vsize (int (length tcs)))"
    using begin_nonneg [OF n1 v0 vn] by simp
  show "spmd [s1, s2, s3, s4, s5, s6]
           (w, map (\<lambda>c. mylib_vector_dot (Some (p, junk)) (Some c) (Some a) (Some b) (Some d) vsize) tcs)
       = Inr (with_calls (on_threads {0..<length tcs} (dot_calls p F (length tcs)))
                (w\<lparr>factories := (factories w)(f \<mapsto> F\<lparr>shared_data := Some p\<rparr>),
                   buffers := (buffers w)(d \<mapsto> ds[0 := reduced_total xs ys vsize (length tcs)])\<rparr>),
              replicate (length tcs) (Return ()))"
    by (rule spmd_dot [OF grp fac cb n full fresh bufs len vi safe nb])
  show "reduced_total xs ys vsize (length tcs)
       = foldl (+) (foldl (\<lambda>s j. s + xs ! nat j * ys ! nat j) 0
                      [begin_index 0 (elements_per_thread vsize (int (length tcs)))..
                       end_index 0 (elements_per_thread vsize (int (length tcs))) vsize - 1])
           (map (thread_partial xs ys vsize (length tcs)) [1..<length tcs])"
    by (simp add: reduced_total_def thread_partial_def)
  show "reduced_total us vs vsize (length tcs) = (\<Sum>i<length us. us ! i * vs ! i)"
    by (rule reduced_total_sum [OF n0 exact vn])
qed

theorem vector_dot_result_witness:
  "map_option (\<lambda>w'. buffers w' 12)
     (final_world (spmd example_schedules
        (example_world,
         map (\<lambda>c. mylib_vector_dot example_block (Some c) (Some 10) (Some 11) (Some 12) 3)
           [200, 201])))
   = Some (Some [reduced_total [1, 2, 3] [4, 5, 6] 3 2, 0, 0])
   \<and> reduced_total [1, 2, 3] [4, 5, 6] 3 2 = (32::int)"
proof -
  have n: "[200::nat, 201] \<noteq> []" and ds: "[0::int, 0, 0] \<noteq> []" by simp_all
  have vn: "3 + int (length [200::nat, 201]) \<le> INT_MAX" by (simp add: INT_MAX_def)
  have nb: "int (length [200::nat, 201]) * sizeof_double \<le> INT_MAX"
    by (simp add: sizeof_double_def INT_MAX_def)
  have len: "int (length [1::int, 2, 3]) = 3" "int (length [4::int, 5, 6]) = 3" by simp_all
  have s: "(\<Sum>i<length [1::int, 2, 3]. [1::int, 2, 3] ! i * [4, 5, 6] ! i) = 32"
    by (simp add: numeral_3_eq_3)
  have l: "length [200::nat, 201] = 2" by simp
  note r = vector_dot_result [OF example_group example_factory example_callback n vn nb
      example_schedules_full example_buffers(4) example_buffers(1,2,3) len ds len(1),
      of "\<lambda>_. 0" "[4, 5, 6]", unfolded l s]
  from r [THEN conjunct1] have "map_option (\<lambda>w'. buffers w' 12)
     (final_world (spmd example_schedules
        (example_world,
         map (\<lambda>c. mylib_vector_dot example_block (Some c) (Some 10) (Some 11) (Some 12) 3)
           [200, 201])))
   = Some (Some [reduced_total [1, 2, 3] [4, 5, 6] 3 2, 0, 0])"
    by (simp add: final_world_def example_schedules_def example_block_def)
  then show ?thesis using r [THEN conjunct2, THEN conjunct2] by (intro conjI)
qed

end
